theory Spec2Isabelle
  imports Main "HOL-Library.Sublist"
begin

section \<open>Data model of the build pipe\<close>

text \<open>
  The model follows \<^verbatim>\<open>src/extensions/builder/build-pipe.ts\<close>. The types the file
  imports (\<^verbatim>\<open>BuildTask\<close>, \<^verbatim>\<open>ComponentResult\<close>, \<^verbatim>\<open>EnvDefinition\<close>, the build context
  and the artifact types) are declared elsewhere; only the fields that
  \<^verbatim>\<open>build-pipe.ts\<close> reads are modelled. A JavaScript value that may be \<^verbatim>\<open>undefined\<close>
  is an \<open>option\<close>. The build context, the artifact definitions and the generated
  artifacts are opaque to the pipe and are type parameters.
\<close>

text \<open>
  Errors that abort a run: the one \<^verbatim>\<open>getBuildContext\<close> throws, and whatever a hook of a
  task throws (the pipe awaits every hook, so its exception leaves \<^verbatim>\<open>execute\<close>).
\<close>

datatype error = MissingBuildContext string | HookError string

text \<open>The pair \<^verbatim>\<open>{ aspectId, name }\<close> that \<^verbatim>\<open>BuildTaskHelper.deserializeId\<close> returns.\<close>

record task_identifier =
  aspectId :: string
  name :: "string option"

text \<open>The descriptive part of a \<^verbatim>\<open>BuildTask\<close>: what a task result keeps of its task.\<close>

record task_info = task_identifier +
  description :: "string option"
  dependencies :: "string list option"

record env_definition =
  envId :: string

record component_result =
  componentId :: string
  errors :: "string list option"

text \<open>
  What \<^verbatim>\<open>task.execute\<close> resolves to. Its fields \<^verbatim>\<open>componentsResults\<close> and \<^verbatim>\<open>artifacts\<close>
  are \<open>builtComponentsResults\<close> and \<open>builtArtifacts\<close> here, since \<^verbatim>\<open>TaskResults\<close> has
  fields of the same names.
\<close>

record 'adef built_task_result =
  builtComponentsResults :: "component_result list"
  builtArtifacts :: "'adef list option"

text \<open>
  \<^verbatim>\<open>TaskResults\<close>. The two timestamps read from the wall clock are left out: no
  decision of the pipe depends on them. The field \<open>task\<close> holds the descriptive part of
  the task (a record cannot contain the post-build hook that consumes it).
\<close>

record 'art task_results =
  task :: task_info
  env :: env_definition
  componentsResults :: "component_result list"
  artifacts :: "'art option"

text \<open>
  \<^verbatim>\<open>BuildTask\<close>: the descriptive part extended by the three hooks. A hook either
  completes or throws; \<^verbatim>\<open>preBuild\<close> and \<^verbatim>\<open>postBuild\<close> are optional. The hook
  \<^verbatim>\<open>task.execute\<close> is the field \<open>executeHook\<close> (\<open>execute\<close> is the operation of the pipe).
\<close>

record ('ctx, 'adef, 'art) build_task = task_info +
  preBuild :: "('ctx \<Rightarrow> error + unit) option"
  executeHook :: "'ctx \<Rightarrow> error + 'adef built_task_result"
  postBuild :: "('ctx \<Rightarrow> 'art task_results list \<Rightarrow> error + unit) option"

text \<open>
  Calls to the collaborators that the pipe makes, recorded in order. The number is
  the position of the queue entry the call is made for (\<^verbatim>\<open>Bluebird.mapSeries\<close> passes it
  to its callback). Progress and status lines of the logger are not recorded.
\<close>

datatype event =
    PreBuildHook nat
  | ExecuteHook nat
  | PostBuildHook nat
  | ArtifactsGenerated nat
  | ConsoleFailure nat
  | ConsoleSuccess nat
  | ConsoleWarning nat

fun evIndex :: "event \<Rightarrow> nat" where
  "evIndex (PreBuildHook i) = i"
| "evIndex (ExecuteHook i) = i"
| "evIndex (PostBuildHook i) = i"
| "evIndex (ArtifactsGenerated i) = i"
| "evIndex (ConsoleFailure i) = i"
| "evIndex (ConsoleSuccess i) = i"
| "evIndex (ConsoleWarning i) = i"

text \<open>
  The object \<^verbatim>\<open>this\<close> of class \<^verbatim>\<open>BuildPipe\<close>: the read-only constructor arguments,
  the two private mutable fields, and the record of collaborator calls.
\<close>

record ('ctx, 'adef, 'art) build_pipe =
  tasksQueue :: "(('ctx, 'adef, 'art) build_task \<times> env_definition) list"
  envsBuildContext :: "string \<rightharpoonup> 'ctx"
  artifactFactory :: "'ctx \<Rightarrow> 'adef list \<Rightarrow> ('ctx, 'adef, 'art) build_task \<Rightarrow> 'art"
  failedTasks :: "('ctx, 'adef, 'art) build_task list"
  failedDependencyTask :: "('ctx, 'adef, 'art) build_task option"
  trace :: "event list"

text \<open>\<^verbatim>\<open>BuildPipe.from\<close>: a fresh pipe has no failed task and no recorded cause.\<close>

definition BuildPipe_from ::
  "(('ctx, 'adef, 'art) build_task \<times> env_definition) list \<Rightarrow> (string \<rightharpoonup> 'ctx) \<Rightarrow>
   ('ctx \<Rightarrow> 'adef list \<Rightarrow> ('ctx, 'adef, 'art) build_task \<Rightarrow> 'art) \<Rightarrow> ('ctx, 'adef, 'art) build_pipe" where
  "BuildPipe_from queue contexts factory =
     \<lparr>tasksQueue = queue, envsBuildContext = contexts, artifactFactory = factory,
      failedTasks = [], failedDependencyTask = None, trace = []\<rparr>"

section \<open>Operations\<close>

text \<open>
  \<^verbatim>\<open>Bluebird.mapSeries\<close>: the callback runs on the items one after the other, each
  on the state the previous one left; the first exception ends the iteration.
\<close>

fun mapSeries ::
  "(nat \<Rightarrow> 'a \<Rightarrow> 's \<Rightarrow> (error + 'b) \<times> 's) \<Rightarrow> nat \<Rightarrow> 'a list \<Rightarrow> 's \<Rightarrow> (error + 'b list) \<times> 's" where
  "mapSeries f i [] s = (Inr [], s)"
| "mapSeries f i (x # xs) s =
     (case f i x s of
        (Inl e, s') \<Rightarrow> (Inl e, s')
      | (Inr y, s') \<Rightarrow>
          (case mapSeries f (Suc i) xs s' of
             (Inl e, s'') \<Rightarrow> (Inl e, s'')
           | (Inr ys, s'') \<Rightarrow> (Inr (y # ys), s'')))"

text \<open>\<^verbatim>\<open>compact\<close> of ramda-adjunct on a list of results and \<^verbatim>\<open>null\<close>s: the \<^verbatim>\<open>null\<close>s go.\<close>

fun compact :: "'a option list \<Rightarrow> 'a list" where
  "compact [] = []"
| "compact (None # xs) = compact xs"
| "compact (Some x # xs) = x # compact xs"

definition log :: "event \<Rightarrow> ('ctx, 'adef, 'art) build_pipe \<Rightarrow> ('ctx, 'adef, 'art) build_pipe" where
  "log ev this = this\<lparr>trace := trace this @ [ev]\<rparr>"

definition getBuildContext :: "string \<Rightarrow> ('ctx, 'adef, 'art) build_pipe \<Rightarrow> error + 'ctx" where
  "getBuildContext envId' this =
     (case envsBuildContext this envId' of
        None \<Rightarrow> Inl (MissingBuildContext envId')
      | Some buildContext \<Rightarrow> Inr buildContext)"

text \<open>
  The callback of \<^verbatim>\<open>failedTasks.find\<close>. The test \<^verbatim>\<open>name &&\<close> is false for an undefined
  name and for the empty string.
\<close>

definition matchesFailedTask :: "task_identifier \<Rightarrow> ('ctx, 'adef, 'art) build_task \<Rightarrow> bool" where
  "matchesFailedTask dep failedTask =
     (if (name dep \<noteq> None \<and> name dep \<noteq> Some []) \<and> name dep \<noteq> name failedTask then False
      else aspectId dep = aspectId failedTask)"

text \<open>
  \<^verbatim>\<open>updateFailedDependencyTask\<close>. \<^verbatim>\<open>BuildTaskHelper.deserializeId\<close> is not part of the
  file and is the parameter \<open>deserializeId\<close>. The body of \<^verbatim>\<open>forEach\<close> assigns the field
  at every dependency.
\<close>

definition updateFailedDependencyTask ::
  "(string \<Rightarrow> task_identifier) \<Rightarrow> ('ctx, 'adef, 'art) build_task \<Rightarrow>
   ('ctx, 'adef, 'art) build_pipe \<Rightarrow> ('ctx, 'adef, 'art) build_pipe" where
  "updateFailedDependencyTask deserializeId task' this =
     (if failedDependencyTask this = None \<and> failedTasks this \<noteq> [] \<and> dependencies task' \<noteq> None
      then fold (\<lambda>dependency this'.
                   this'\<lparr>failedDependencyTask :=
                           find (matchesFailedTask (deserializeId dependency)) (failedTasks this')\<rparr>)
                (the (dependencies task')) this
      else this)"

text \<open>
  \<^verbatim>\<open>shouldSkipTask\<close>. Its two arguments only go into the text of the warning; the
  model takes the position of the entry instead, for the record of calls.
\<close>

definition shouldSkipTask ::
  "nat \<Rightarrow> ('ctx, 'adef, 'art) build_pipe \<Rightarrow> bool \<times> ('ctx, 'adef, 'art) build_pipe" where
  "shouldSkipTask i this =
     (if failedDependencyTask this = None then (False, this)
      else (True, log (ConsoleWarning i) this))"

text \<open>\<^verbatim>\<open>c.errors?.length\<close> as a condition: defined and not of length zero.\<close>

definition hasErrors :: "component_result \<Rightarrow> bool" where
  "hasErrors c = (case errors c of None \<Rightarrow> False | Some es \<Rightarrow> length es \<noteq> 0)"

text \<open>
  \<^verbatim>\<open>executeTask\<close>. The serialized task id, the task name and the duration are only
  used in messages of the logger and are left out.
\<close>

definition executeTask ::
  "(string \<Rightarrow> task_identifier) \<Rightarrow> nat \<Rightarrow> ('ctx, 'adef, 'art) build_task \<Rightarrow> env_definition \<Rightarrow>
   ('ctx, 'adef, 'art) build_pipe \<Rightarrow> (error + 'art task_results option) \<times> ('ctx, 'adef, 'art) build_pipe" where
  "executeTask deserializeId i task' env' this0 =
     (let this1 = updateFailedDependencyTask deserializeId task' this0 in
      case shouldSkipTask i this1 of
        (True, this2) \<Rightarrow> (Inr None, this2)
      | (False, this2) \<Rightarrow>
          (case getBuildContext (envId env') this2 of
             Inl e \<Rightarrow> (Inl e, this2)
           | Inr buildContext \<Rightarrow>
               (let this3 = log (ExecuteHook i) this2 in
                case executeHook task' buildContext of
                  Inl e \<Rightarrow> (Inl e, this3)
                | Inr buildTaskResult \<Rightarrow>
                    (let compsWithErrors = filter hasErrors (builtComponentsResults buildTaskResult) in
                     if length compsWithErrors \<noteq> 0
                     then (Inr (Some \<lparr>task = task_info.truncate task', env = env',
                                      componentsResults = builtComponentsResults buildTaskResult,
                                      artifacts = None\<rparr>),
                           (log (ConsoleFailure i) this3)
                             \<lparr>failedTasks := failedTasks this3 @ [task']\<rparr>)
                     else
                       (let this4 = log (ConsoleSuccess i) this3;
                            defs = (case builtArtifacts buildTaskResult of None \<Rightarrow> [] | Some ds \<Rightarrow> ds);
                            arts = artifactFactory this4 buildContext defs task'
                        in (Inr (Some \<lparr>task = task_info.truncate task', env = env',
                                       componentsResults = builtComponentsResults buildTaskResult,
                                       artifacts = Some arts\<rparr>),
                            log (ArtifactsGenerated i) this4))))))"

text \<open>
  The callback of \<^verbatim>\<open>executePreBuild\<close>. The argument \<^verbatim>\<open>this.getBuildContext(env.id)\<close> is
  evaluated before the hook is called, so a missing build context throws first. An
  entry of the queue is the pair of its task and its environment.
\<close>

definition preBuildEntry ::
  "nat \<Rightarrow> ('ctx, 'adef, 'art) build_task \<times> env_definition \<Rightarrow>
   ('ctx, 'adef, 'art) build_pipe \<Rightarrow> (error + unit) \<times> ('ctx, 'adef, 'art) build_pipe" where
  "preBuildEntry i entry this =
     (case preBuild (fst entry) of
        None \<Rightarrow> (Inr (), this)
      | Some hook \<Rightarrow>
          (case getBuildContext (envId (snd entry)) this of
             Inl e \<Rightarrow> (Inl e, this)
           | Inr buildContext \<Rightarrow>
               (case hook buildContext of
                  Inl e \<Rightarrow> (Inl e, log (PreBuildHook i) this)
                | Inr u \<Rightarrow> (Inr (), log (PreBuildHook i) this))))"

definition executePreBuild ::
  "('ctx, 'adef, 'art) build_pipe \<Rightarrow> (error + unit list) \<times> ('ctx, 'adef, 'art) build_pipe" where
  "executePreBuild this = mapSeries preBuildEntry 0 (tasksQueue this) this"

text \<open>The callback of \<^verbatim>\<open>executePostBuild\<close>, with the results list the hooks are given.\<close>

definition postBuildEntry ::
  "'art task_results list \<Rightarrow> nat \<Rightarrow> ('ctx, 'adef, 'art) build_task \<times> env_definition \<Rightarrow>
   ('ctx, 'adef, 'art) build_pipe \<Rightarrow> (error + unit) \<times> ('ctx, 'adef, 'art) build_pipe" where
  "postBuildEntry tasksResults i entry this =
     (case postBuild (fst entry) of
        None \<Rightarrow> (Inr (), this)
      | Some hook \<Rightarrow>
          (case getBuildContext (envId (snd entry)) this of
             Inl e \<Rightarrow> (Inl e, this)
           | Inr buildContext \<Rightarrow>
               (case hook buildContext tasksResults of
                  Inl e \<Rightarrow> (Inl e, log (PostBuildHook i) this)
                | Inr u \<Rightarrow> (Inr (), log (PostBuildHook i) this))))"

definition executePostBuild ::
  "'art task_results list \<Rightarrow> ('ctx, 'adef, 'art) build_pipe \<Rightarrow>
   (error + unit list) \<times> ('ctx, 'adef, 'art) build_pipe" where
  "executePostBuild tasksResults this =
     mapSeries (postBuildEntry tasksResults) 0 (tasksQueue this) this"

text \<open>
  Line 67 of the file: the tasks of the queue, one after the other. \<open>taskEntry\<close> is
  the callback given to \<^verbatim>\<open>mapSeries\<close>.
\<close>

abbreviation taskEntry ::
  "(string \<Rightarrow> task_identifier) \<Rightarrow> nat \<Rightarrow> ('ctx, 'adef, 'art) build_task \<times> env_definition \<Rightarrow>
   ('ctx, 'adef, 'art) build_pipe \<Rightarrow> (error + 'art task_results option) \<times> ('ctx, 'adef, 'art) build_pipe" where
  "taskEntry deserializeId \<equiv> (\<lambda>i entry. executeTask deserializeId i (fst entry) (snd entry))"

definition runTasks ::
  "(string \<Rightarrow> task_identifier) \<Rightarrow> ('ctx, 'adef, 'art) build_pipe \<Rightarrow>
   (error + 'art task_results option list) \<times> ('ctx, 'adef, 'art) build_pipe" where
  "runTasks deserializeId this = mapSeries (taskEntry deserializeId) 0 (tasksQueue this) this"

text \<open>
  \<^verbatim>\<open>execute\<close>. The \<^verbatim>\<open>TaskResultsList\<close> it returns is modelled by the list of results it
  is built from.
\<close>

definition execute ::
  "(string \<Rightarrow> task_identifier) \<Rightarrow> ('ctx, 'adef, 'art) build_pipe \<Rightarrow>
   (error + 'art task_results list) \<times> ('ctx, 'adef, 'art) build_pipe" where
  "execute deserializeId this =
     (case executePreBuild this of
        (Inl e, this1) \<Rightarrow> (Inl e, this1)
      | (Inr u, this1) \<Rightarrow>
          (case runTasks deserializeId this1 of
             (Inl e, this2) \<Rightarrow> (Inl e, this2)
           | (Inr results, this2) \<Rightarrow>
               (let tasksResultsList = compact results in
                case executePostBuild tasksResultsList this2 of
                  (Inl e, this3) \<Rightarrow> (Inl e, this3)
                | (Inr u', this3) \<Rightarrow> (Inr tasksResultsList, this3))))"

section \<open>Notions used to state the properties\<close>

text \<open>
  An entry is skipped when \<^verbatim>\<open>shouldSkipTask\<close> answers \<^verbatim>\<open>true\<close> for it; the warning of
  line 145 is emitted then and only then, so the record of calls tells which entries
  were skipped.
\<close>

definition skipped :: "('ctx, 'adef, 'art) build_pipe \<Rightarrow> nat \<Rightarrow> bool" where
  "skipped this k = (ConsoleWarning k \<in> set (trace this))"


text \<open>
  The dependency scan as the specification words it (section 4.2, step 2): the
  dependencies in declared order, for each the first failed task that matches, and the
  first match found is the cause. It is compared with \<open>updateFailedDependencyTask\<close>,
  which is the scan of the source.
\<close>

fun firstMatch ::
  "(string \<Rightarrow> task_identifier) \<Rightarrow> string list \<Rightarrow> ('ctx, 'adef, 'art) build_task list \<Rightarrow>
   ('ctx, 'adef, 'art) build_task option" where
  "firstMatch deserializeId [] failed = None"
| "firstMatch deserializeId (dependency # rest) failed =
     (case find (matchesFailedTask (deserializeId dependency)) failed of
        Some failedTask \<Rightarrow> Some failedTask
      | None \<Rightarrow> firstMatch deserializeId rest failed)"

section \<open>Concrete inputs\<close>

text \<open>
  Modelled from the spec: \<^verbatim>\<open>BuildTaskHelper.deserializeId\<close> (file \<^verbatim>\<open>build-task.ts\<close>) is
  missing. A task identifier is an owner id and an optional name in one string; the
  dependency strings of the spec are \<^verbatim>\<open>A\<close> (no name) and \<^verbatim>\<open>owner:x\<close>, so the name
  follows the first colon. It is used for the concrete runs only; the operations above
  take the deserializer as a parameter.
\<close>

definition deserializeId :: "string \<Rightarrow> task_identifier" where
  "deserializeId s =
     (let rest = dropWhile (\<lambda>c. c \<noteq> CHR '':'') s
      in \<lparr>aspectId = takeWhile (\<lambda>c. c \<noteq> CHR '':'') s,
          name = (if rest = [] then None else Some (tl rest))\<rparr>)"

text \<open>
  Tasks over build contexts, artifact definitions and artifacts that are numbers.
  \<open>failing\<close> reports one component with an error, \<open>passing\<close> one component whose
  \<^verbatim>\<open>errors\<close> field is absent and one whose \<^verbatim>\<open>errors\<close> is empty.
\<close>

definition failing :: "nat \<Rightarrow> error + nat built_task_result" where
  "failing ctx =
     Inr \<lparr>builtComponentsResults = [\<lparr>componentId = ''c'', errors = Some [''boom'']\<rparr>],
          builtArtifacts = None\<rparr>"

definition passing :: "nat \<Rightarrow> error + nat built_task_result" where
  "passing ctx =
     Inr \<lparr>builtComponentsResults =
            [\<lparr>componentId = ''c'', errors = None\<rparr>, \<lparr>componentId = ''d'', errors = Some []\<rparr>],
          builtArtifacts = None\<rparr>"

definition mkTask ::
  "string \<Rightarrow> string option \<Rightarrow> string list option \<Rightarrow> (nat \<Rightarrow> error + nat built_task_result) \<Rightarrow>
   (nat, nat, nat) build_task" where
  "mkTask a n deps ex =
     \<lparr>aspectId = a, name = n, description = None, dependencies = deps,
      preBuild = None, executeHook = ex, postBuild = None\<rparr>"

definition countDefs :: "nat \<Rightarrow> nat list \<Rightarrow> (nat, nat, nat) build_task \<Rightarrow> nat" where
  "countDefs ctx defs t = length defs"

definition env1 :: env_definition where
  "env1 = \<lparr>envId = ''env1''\<rparr>"

definition env2 :: env_definition where
  "env2 = \<lparr>envId = ''env2''\<rparr>"

text \<open>The registry of the concrete runs knows \<^verbatim>\<open>env1\<close> only.\<close>

definition contexts1 :: "string \<rightharpoonup> nat" where
  "contexts1 = [''env1'' \<mapsto> 7]"

text \<open>A task with a pre-build hook that completes.\<close>

definition withPreBuild :: "(nat, nat, nat) build_task \<Rightarrow> (nat, nat, nat) build_task" where
  "withPreBuild t = t\<lparr>preBuild := Some (\<lambda>ctx. Inr ())\<rparr>"

text \<open>Two tasks that succeed.\<close>

definition queueOk :: "((nat, nat, nat) build_task \<times> env_definition) list" where
  "queueOk = [(mkTask ''A'' None None passing, env1), (mkTask ''B'' None (Some [''A'']) passing, env1)]"

text \<open>
  The first scenario of the spec, with the dependent task in an environment the
  registry does not know.
\<close>

definition queueSkip :: "((nat, nat, nat) build_task \<times> env_definition) list" where
  "queueSkip = [(mkTask ''A'' None None failing, env1), (mkTask ''B'' None (Some [''A'']) passing, env2)]"

text \<open>\<^verbatim>\<open>A\<close> fails, \<^verbatim>\<open>B\<close> succeeds, and \<^verbatim>\<open>C\<close> depends on \<^verbatim>\<open>A\<close> and on \<^verbatim>\<open>B\<close>, in this order.\<close>

definition queueOverwrite :: "((nat, nat, nat) build_task \<times> env_definition) list" where
  "queueOverwrite =
     [(mkTask ''A'' None None failing, env1), (mkTask ''B'' None None passing, env1),
      (mkTask ''C'' None (Some [''A'', ''B'']) passing, env1)]"

text \<open>Two tasks with a pre-build hook, the second in the unknown environment.\<close>

definition queuePre :: "((nat, nat, nat) build_task \<times> env_definition) list" where
  "queuePre = [(withPreBuild (mkTask ''A'' None None passing), env1),
               (withPreBuild (mkTask ''B'' None None passing), env2)]"

text \<open>
  A task without hooks in the unknown environment, followed by a task with a
  pre-build hook in a known one.
\<close>

definition queueLate :: "((nat, nat, nat) build_task \<times> env_definition) list" where
  "queueLate = [(mkTask ''A'' None None passing, env2),
                (withPreBuild (mkTask ''B'' None None passing), env1)]"

lemmas example_defs =
  deserializeId_def failing_def passing_def mkTask_def countDefs_def env1_def env2_def
  contexts1_def BuildPipe_from_def

text \<open>A task with a post-build hook that completes.\<close>

definition withPostBuild :: "(nat, nat, nat) build_task \<Rightarrow> (nat, nat, nat) build_task" where
  "withPostBuild t = t\<lparr>postBuild := Some (\<lambda>ctx tasksResults. Inr ())\<rparr>"

text \<open>
  \<open>queueSkip\<close> with a post-build hook on the dependent task, which is in the unknown
  environment.
\<close>

definition queuePost :: "((nat, nat, nat) build_task \<times> env_definition) list" where
  "queuePost = [(mkTask ''A'' None None failing, env1),
                (withPostBuild (mkTask ''B'' None (Some [''A'']) passing), env2)]"

lemmas queue_defs =
  withPreBuild_def queueOk_def queueSkip_def queueOverwrite_def queuePre_def queueLate_def
  withPostBuild_def queuePost_def

lemmas pipe_defs =
  execute_def executePreBuild_def runTasks_def executePostBuild_def preBuildEntry_def
  postBuildEntry_def executeTask_def updateFailedDependencyTask_def shouldSkipTask_def
  getBuildContext_def hasErrors_def log_def matchesFailedTask_def task_info.truncate_def

section \<open>Sequential iteration\<close>

lemma mapSeries_length:
  "mapSeries f i xs s = (Inr ys, s') \<Longrightarrow> length ys = length xs"
  by (induction xs arbitrary: i s ys) (auto split: prod.splits sum.splits)

lemma mapSeries_append:
  "mapSeries f i (xs @ ys) s =
     (case mapSeries f i xs s of
        (Inl e, s') \<Rightarrow> (Inl e, s')
      | (Inr as, s') \<Rightarrow>
          (case mapSeries f (i + length xs) ys s' of
             (Inl e, s'') \<Rightarrow> (Inl e, s'')
           | (Inr bs, s'') \<Rightarrow> (Inr (as @ bs), s'')))"
  by (induction xs arbitrary: i s) (auto split: prod.splits sum.splits)

lemma mapSeries_append_Inr:
  assumes "mapSeries f i (xs @ ys) s = (Inr zs, s')"
  shows "\<exists>as bs sm. mapSeries f i xs s = (Inr as, sm) \<and>
           mapSeries f (i + length xs) ys sm = (Inr bs, s') \<and> zs = as @ bs \<and> length as = length xs"
  using assms by (auto simp add: mapSeries_append mapSeries_length split: prod.splits sum.splits)

lemma mapSeries_nth:
  assumes "mapSeries f i xs s = (Inr ys, s')" and "k < length xs"
  shows "\<exists>sk sk'. mapSeries f i (take k xs) s = (Inr (take k ys), sk) \<and>
           f (i + k) (xs ! k) sk = (Inr (ys ! k), sk') \<and>
           mapSeries f (Suc (i + k)) (drop (Suc k) xs) sk' = (Inr (drop (Suc k) ys), s')"
proof -
  have xs: "xs = take k xs @ (xs ! k # drop (Suc k) xs)"
    using assms(2) by (simp add: id_take_nth_drop)
  from assms(1) obtain as bs sk where
    pre: "mapSeries f i (take k xs) s = (Inr as, sk)" and
    suf: "mapSeries f (i + length (take k xs)) (xs ! k # drop (Suc k) xs) sk = (Inr bs, s')" and
    ys: "ys = as @ bs" and las: "length as = length (take k xs)"
    using mapSeries_append_Inr [of f i "take k xs" "xs ! k # drop (Suc k) xs" s ys s'] xs
    by metis
  have lk: "length (take k xs) = k" using assms(2) by simp
  from suf lk obtain y sk' cs where
    step: "f (i + k) (xs ! k) sk = (Inr y, sk')" and
    rest: "mapSeries f (Suc (i + k)) (drop (Suc k) xs) sk' = (Inr cs, s')" and
    bs: "bs = y # cs"
    by (auto split: prod.splits sum.splits)
  from ys bs las lk have "take k ys = as" "ys ! k = y" "drop (Suc k) ys = cs"
    by (simp_all add: nth_append)
  with pre step rest show ?thesis by blast
qed

lemma mapSeries_trace:
  fixes f :: "nat \<Rightarrow> 'a \<Rightarrow> ('ctx, 'adef, 'art) build_pipe \<Rightarrow> (error + 'b) \<times> ('ctx, 'adef, 'art) build_pipe"
  assumes step: "\<And>j x s. \<exists>evs. trace (snd (f j x s)) = trace s @ evs \<and> (\<forall>ev \<in> set evs. evIndex ev = j \<and> P ev)"
  shows "\<exists>evs. trace (snd (mapSeries f i xs s)) = trace s @ evs \<and>
           (\<forall>ev \<in> set evs. i \<le> evIndex ev \<and> evIndex ev < i + length xs \<and> P ev)"
proof (induction xs arbitrary: i s)
  case Nil
  then show ?case by simp
next
  case (Cons x xs)
  obtain r s1 where fx: "f i x s = (r, s1)" by (cases "f i x s")
  from step [of i x s] fx obtain evs1 where
    e1: "trace s1 = trace s @ evs1" "\<forall>ev \<in> set evs1. evIndex ev = i \<and> P ev" by auto
  show ?case
  proof (cases r)
    case (Inl e)
    with fx e1 show ?thesis by auto
  next
    case (Inr y)
    from Cons.IH [of "Suc i" s1] obtain evs2 where
      e2: "trace (snd (mapSeries f (Suc i) xs s1)) = trace s1 @ evs2"
          "\<forall>ev \<in> set evs2. Suc i \<le> evIndex ev \<and> evIndex ev < Suc i + length xs \<and> P ev" by blast
    have "snd (mapSeries f i (x # xs) s) = snd (mapSeries f (Suc i) xs s1)"
      using fx Inr by (auto split: prod.splits sum.splits)
    then have "trace (snd (mapSeries f i (x # xs) s)) = trace s @ (evs1 @ evs2)"
      using e1 e2 by simp
    moreover have "\<forall>ev \<in> set (evs1 @ evs2). i \<le> evIndex ev \<and> evIndex ev < i + length (x # xs) \<and> P ev"
      using e1 e2 by fastforce
    ultimately show ?thesis by blast
  qed
qed

lemma mapSeries_invariant:
  assumes "\<And>j x s. Q s \<Longrightarrow> Q (snd (f j x s))" and "Q s"
  shows "Q (snd (mapSeries f i xs s))"
  using assms(2)
proof (induction xs arbitrary: i s)
  case Nil then show ?case by simp
next
  case (Cons x xs)
  from assms(1) [OF Cons.prems, of i x] have q: "Q (snd (f i x s))" .
  show ?case
  proof (cases "f i x s")
    case (Pair r s1)
    with q have q1: "Q s1" by simp
    show ?thesis
    proof (cases r)
      case (Inl e) with Pair q1 show ?thesis by simp
    next
      case (Inr y)
      have "snd (mapSeries f i (x # xs) s) = snd (mapSeries f (Suc i) xs s1)"
        using Pair Inr by (auto split: prod.splits sum.splits)
      with Cons.IH [OF q1] show ?thesis by simp
    qed
  qed
qed

lemma mapSeries_frame:
  assumes "\<And>j x s. g (snd (f j x s)) = g s"
  shows "g (snd (mapSeries f i xs s)) = g s"
  by (rule mapSeries_invariant [where Q = "\<lambda>s'. g s' = g s"]) (simp_all add: assms)

section \<open>The dependency scan\<close>

lemma fold_assign_cause:
  "fold (\<lambda>dependency this'. this'\<lparr>failedDependencyTask :=
            find (matchesFailedTask (d dependency)) (failedTasks this')\<rparr>) deps this =
     (if deps = [] then this
      else this\<lparr>failedDependencyTask := find (matchesFailedTask (d (last deps))) (failedTasks this)\<rparr>)"
  by (induction deps arbitrary: this) auto

lemma updateFailedDependencyTask_eq:
  "updateFailedDependencyTask d t this =
     (if failedDependencyTask this = None \<and> failedTasks this \<noteq> [] \<and> dependencies t \<noteq> None
         \<and> the (dependencies t) \<noteq> []
      then this\<lparr>failedDependencyTask :=
                  find (matchesFailedTask (d (last (the (dependencies t))))) (failedTasks this)\<rparr>
      else this)"
  unfolding updateFailedDependencyTask_def by (simp add: fold_assign_cause)

lemma update_fields [simp]:
  "failedTasks (updateFailedDependencyTask d t this) = failedTasks this"
  "envsBuildContext (updateFailedDependencyTask d t this) = envsBuildContext this"
  "tasksQueue (updateFailedDependencyTask d t this) = tasksQueue this"
  "artifactFactory (updateFailedDependencyTask d t this) = artifactFactory this"
  "trace (updateFailedDependencyTask d t this) = trace this"
  by (simp_all add: updateFailedDependencyTask_eq)


section \<open>One task\<close>

text \<open>The four ways \<open>executeTask\<close> ends, and the skip.\<close>

lemma executeTask_skip:
  "failedDependencyTask (updateFailedDependencyTask d t this) \<noteq> None \<Longrightarrow>
   executeTask d i t e this = (Inr None, log (ConsoleWarning i) (updateFailedDependencyTask d t this))"
  by (auto simp add: executeTask_def shouldSkipTask_def Let_def)

lemma executeTask_missing:
  "failedDependencyTask (updateFailedDependencyTask d t this) = None \<Longrightarrow>
   envsBuildContext this (envId e) = None \<Longrightarrow>
   executeTask d i t e this = (Inl (MissingBuildContext (envId e)), updateFailedDependencyTask d t this)"
  by (simp add: executeTask_def shouldSkipTask_def Let_def getBuildContext_def)

lemma executeTask_throws:
  "failedDependencyTask (updateFailedDependencyTask d t this) = None \<Longrightarrow>
   envsBuildContext this (envId e) = Some ctx \<Longrightarrow> executeHook t ctx = Inl err \<Longrightarrow>
   executeTask d i t e this = (Inl err, log (ExecuteHook i) (updateFailedDependencyTask d t this))"
  by (simp add: executeTask_def shouldSkipTask_def Let_def getBuildContext_def)

lemma executeTask_failed:
  "failedDependencyTask (updateFailedDependencyTask d t this) = None \<Longrightarrow>
   envsBuildContext this (envId e) = Some ctx \<Longrightarrow> executeHook t ctx = Inr res \<Longrightarrow>
   filter hasErrors (builtComponentsResults res) \<noteq> [] \<Longrightarrow>
   executeTask d i t e this =
     (Inr (Some \<lparr>task = task_info.truncate t, env = e,
                 componentsResults = builtComponentsResults res, artifacts = None\<rparr>),
      (log (ConsoleFailure i) (log (ExecuteHook i) (updateFailedDependencyTask d t this)))
        \<lparr>failedTasks := failedTasks this @ [t]\<rparr>)"
  by (simp add: executeTask_def shouldSkipTask_def Let_def getBuildContext_def log_def)

lemma executeTask_succeeded:
  "failedDependencyTask (updateFailedDependencyTask d t this) = None \<Longrightarrow>
   envsBuildContext this (envId e) = Some ctx \<Longrightarrow> executeHook t ctx = Inr res \<Longrightarrow>
   filter hasErrors (builtComponentsResults res) = [] \<Longrightarrow>
   executeTask d i t e this =
     (Inr (Some \<lparr>task = task_info.truncate t, env = e,
                 componentsResults = builtComponentsResults res,
                 artifacts = Some (artifactFactory this ctx
                    (case builtArtifacts res of None \<Rightarrow> [] | Some ds \<Rightarrow> ds) t)\<rparr>),
      log (ArtifactsGenerated i) (log (ConsoleSuccess i) (log (ExecuteHook i)
        (updateFailedDependencyTask d t this))))"
  by (simp add: executeTask_def shouldSkipTask_def Let_def getBuildContext_def log_def)

lemma executeTask_cases [case_names skip missing throws failed succeeded]:
  obtains
    "failedDependencyTask (updateFailedDependencyTask d t this) \<noteq> None"
    "executeTask d i t e this = (Inr None, log (ConsoleWarning i) (updateFailedDependencyTask d t this))"
  | "failedDependencyTask (updateFailedDependencyTask d t this) = None"
    "envsBuildContext this (envId e) = None"
    "executeTask d i t e this = (Inl (MissingBuildContext (envId e)), updateFailedDependencyTask d t this)"
  | ctx err where
    "failedDependencyTask (updateFailedDependencyTask d t this) = None"
    "envsBuildContext this (envId e) = Some ctx" "executeHook t ctx = Inl err"
    "executeTask d i t e this = (Inl err, log (ExecuteHook i) (updateFailedDependencyTask d t this))"
  | ctx res where
    "failedDependencyTask (updateFailedDependencyTask d t this) = None"
    "envsBuildContext this (envId e) = Some ctx" "executeHook t ctx = Inr res"
    "filter hasErrors (builtComponentsResults res) \<noteq> []"
    "executeTask d i t e this =
       (Inr (Some \<lparr>task = task_info.truncate t, env = e,
                   componentsResults = builtComponentsResults res, artifacts = None\<rparr>),
        (log (ConsoleFailure i) (log (ExecuteHook i) (updateFailedDependencyTask d t this)))
          \<lparr>failedTasks := failedTasks this @ [t]\<rparr>)"
  | ctx res where
    "failedDependencyTask (updateFailedDependencyTask d t this) = None"
    "envsBuildContext this (envId e) = Some ctx" "executeHook t ctx = Inr res"
    "filter hasErrors (builtComponentsResults res) = []"
    "executeTask d i t e this =
       (Inr (Some \<lparr>task = task_info.truncate t, env = e,
                   componentsResults = builtComponentsResults res,
                   artifacts = Some (artifactFactory this ctx
                      (case builtArtifacts res of None \<Rightarrow> [] | Some ds \<Rightarrow> ds) t)\<rparr>),
        log (ArtifactsGenerated i) (log (ConsoleSuccess i) (log (ExecuteHook i)
          (updateFailedDependencyTask d t this))))"
proof (cases "failedDependencyTask (updateFailedDependencyTask d t this) = None")
  case False
  with executeTask_skip [of d t this i e] that(1) show ?thesis by blast
next
  case nocause: True
  show ?thesis
  proof (cases "envsBuildContext this (envId e)")
    case None
    with nocause executeTask_missing [of d t this e i] that(2) show ?thesis by blast
  next
    case (Some ctx)
    show ?thesis
    proof (cases "executeHook t ctx")
      case (Inl err)
      with nocause Some executeTask_throws [of d t this e ctx err i] that(3) show ?thesis by blast
    next
      case (Inr res)
      show ?thesis
      proof (cases "filter hasErrors (builtComponentsResults res) = []")
        case True
        with nocause Some Inr executeTask_succeeded [of d t this e ctx res i] that(5)
        show ?thesis by blast
      next
        case False
        with nocause Some Inr executeTask_failed [of d t this e ctx res i] that(4)
        show ?thesis by blast
      qed
    qed
  qed
qed

lemma executeTask_trace:
  "\<exists>evs. trace (snd (executeTask d i t e this)) = trace this @ evs \<and>
     (\<forall>ev \<in> set evs. evIndex ev = i \<and> True)"
  by (rule executeTask_cases [where d=d and t=t and this=this and i=i and e=e]) (auto simp add: log_def)



lemma executeTask_failedTasks:
  "\<exists>ts. failedTasks (snd (executeTask d i t e this)) = failedTasks this @ ts"
  by (rule executeTask_cases [where d=d and t=t and this=this and i=i and e=e]) (auto simp add: log_def)

lemma executeTask_frame:
  "tasksQueue (snd (executeTask d i t e this)) = tasksQueue this"
  "envsBuildContext (snd (executeTask d i t e this)) = envsBuildContext this"
  "artifactFactory (snd (executeTask d i t e this)) = artifactFactory this"
  by (rule executeTask_cases [where d=d and t=t and this=this and i=i and e=e]; simp add: log_def)+


lemma executeTask_skipped_trace:
  "executeTask d i t e this = (Inr None, this') \<Longrightarrow> trace this' = trace this @ [ConsoleWarning i]"
  by (rule executeTask_cases [where d=d and t=t and this=this and i=i and e=e]) (auto simp add: log_def)

lemma executeTask_result:
  assumes "executeTask d i t e this = (Inr (Some r), this')"
  shows "task r = task_info.truncate t \<and> env r = e \<and>
         failedDependencyTask (updateFailedDependencyTask d t this) = None \<and>
         ((artifacts r = None \<and> \<not> (\<forall>c \<in> set (componentsResults r). \<not> hasErrors c) \<and>
           failedTasks this' = failedTasks this @ [t] \<and>
           trace this' = trace this @ [ExecuteHook i, ConsoleFailure i]) \<or>
          (artifacts r \<noteq> None \<and> (\<forall>c \<in> set (componentsResults r). \<not> hasErrors c) \<and>
           failedTasks this' = failedTasks this \<and>
           trace this' = trace this @ [ExecuteHook i, ConsoleSuccess i, ArtifactsGenerated i]))"
  by (rule executeTask_cases [where d=d and t=t and this=this and i=i and e=e])
     (use assms in \<open>auto simp add: log_def filter_empty_conv\<close>)

section \<open>The three phases\<close>

lemma preBuildEntry_trace:
  "\<exists>evs. trace (snd (preBuildEntry i x s)) = trace s @ evs \<and>
      (\<forall>ev \<in> set evs. evIndex ev = i \<and> ev = PreBuildHook (evIndex ev))"
  by (auto simp add: preBuildEntry_def log_def split: option.splits sum.splits)

lemma postBuildEntry_trace:
  "\<exists>evs. trace (snd (postBuildEntry rs i x s)) = trace s @ evs \<and>
      (\<forall>ev \<in> set evs. evIndex ev = i \<and> ev = PostBuildHook (evIndex ev))"
  by (auto simp add: postBuildEntry_def log_def split: option.splits sum.splits)

lemma preBuildEntry_frame:
  "tasksQueue (snd (preBuildEntry i x s)) = tasksQueue s"
  "envsBuildContext (snd (preBuildEntry i x s)) = envsBuildContext s"
  "artifactFactory (snd (preBuildEntry i x s)) = artifactFactory s"
  "failedTasks (snd (preBuildEntry i x s)) = failedTasks s"
  "failedDependencyTask (snd (preBuildEntry i x s)) = failedDependencyTask s"
  by (auto simp add: preBuildEntry_def log_def split: option.splits sum.splits)

lemma postBuildEntry_frame:
  "tasksQueue (snd (postBuildEntry rs i x s)) = tasksQueue s"
  "envsBuildContext (snd (postBuildEntry rs i x s)) = envsBuildContext s"
  "artifactFactory (snd (postBuildEntry rs i x s)) = artifactFactory s"
  "failedTasks (snd (postBuildEntry rs i x s)) = failedTasks s"
  "failedDependencyTask (snd (postBuildEntry rs i x s)) = failedDependencyTask s"
  by (auto simp add: postBuildEntry_def log_def split: option.splits sum.splits)

lemma executePreBuild_frame:
  "tasksQueue (snd (executePreBuild s)) = tasksQueue s"
  "envsBuildContext (snd (executePreBuild s)) = envsBuildContext s"
  "artifactFactory (snd (executePreBuild s)) = artifactFactory s"
  "failedTasks (snd (executePreBuild s)) = failedTasks s"
  "failedDependencyTask (snd (executePreBuild s)) = failedDependencyTask s"
  unfolding executePreBuild_def
  by (rule mapSeries_frame, simp add: preBuildEntry_frame)+

lemma executePostBuild_frame:
  "tasksQueue (snd (executePostBuild rs s)) = tasksQueue s"
  "envsBuildContext (snd (executePostBuild rs s)) = envsBuildContext s"
  "artifactFactory (snd (executePostBuild rs s)) = artifactFactory s"
  "failedTasks (snd (executePostBuild rs s)) = failedTasks s"
  "failedDependencyTask (snd (executePostBuild rs s)) = failedDependencyTask s"
  unfolding executePostBuild_def
  by (rule mapSeries_frame, simp add: postBuildEntry_frame)+

lemma executePreBuild_trace:
  "\<exists>evs. trace (snd (executePreBuild s)) = trace s @ evs \<and>
     (\<forall>ev \<in> set evs. evIndex ev < length (tasksQueue s) \<and> ev = PreBuildHook (evIndex ev))"
  using mapSeries_trace [of preBuildEntry "\<lambda>ev. ev = PreBuildHook (evIndex ev)" 0 "tasksQueue s" s,
      OF preBuildEntry_trace]
  unfolding executePreBuild_def by auto

lemma executePostBuild_trace:
  "\<exists>evs. trace (snd (executePostBuild rs s)) = trace s @ evs \<and>
     (\<forall>ev \<in> set evs. evIndex ev < length (tasksQueue s) \<and> ev = PostBuildHook (evIndex ev))"
  using mapSeries_trace [of "postBuildEntry rs" "\<lambda>ev. ev = PostBuildHook (evIndex ev)" 0 "tasksQueue s" s,
      OF postBuildEntry_trace]
  unfolding executePostBuild_def by auto

lemma tasks_trace:
  "\<exists>evs. trace (snd (mapSeries (taskEntry d) i xs s)) = trace s @ evs \<and>
     (\<forall>ev \<in> set evs. i \<le> evIndex ev \<and> evIndex ev < i + length xs)"
  using mapSeries_trace [of "taskEntry d" "\<lambda>ev. True" i xs s, OF executeTask_trace]
  by auto

lemma tasks_frame:
  "tasksQueue (snd (mapSeries (taskEntry d) i xs s)) = tasksQueue s"
  "envsBuildContext (snd (mapSeries (taskEntry d) i xs s)) = envsBuildContext s"
  "artifactFactory (snd (mapSeries (taskEntry d) i xs s)) = artifactFactory s"
  by (rule mapSeries_frame, simp add: executeTask_frame)+


lemma tasks_failedTasks:
  fixes s :: "('ctx, 'adef, 'art) build_pipe"
  shows "\<exists>ts. failedTasks (snd (mapSeries (taskEntry d) i xs s)) = failedTasks s @ ts"
proof (rule mapSeries_invariant [where Q = "\<lambda>s'. \<exists>ts. failedTasks s' = failedTasks s @ ts"])
  fix j x and s' :: "('ctx, 'adef, 'art) build_pipe"
  assume "\<exists>ts. failedTasks s' = failedTasks s @ ts"
  moreover obtain ts' where "failedTasks (snd (executeTask d j (fst x) (snd x) s')) = failedTasks s' @ ts'"
    using executeTask_failedTasks by blast
  ultimately show "\<exists>ts. failedTasks (snd (executeTask d j (fst x) (snd x) s')) = failedTasks s @ ts"
    by auto
qed simp

lemma run_entry:
  assumes run: "mapSeries (taskEntry d) 0 q s = (Inr raw, s')" and k: "k < length q"
  obtains sk sk' e1 e2 e3 ts where
    "mapSeries (taskEntry d) 0 (take k q) s = (Inr (take k raw), sk)"
    "executeTask d k (fst (q ! k)) (snd (q ! k)) sk = (Inr (raw ! k), sk')"
    "mapSeries (taskEntry d) (Suc k) (drop (Suc k) q) sk' = (Inr (drop (Suc k) raw), s')"
    "trace sk = trace s @ e1" "trace sk' = trace sk @ e2" "trace s' = trace sk' @ e3"
    "\<forall>ev \<in> set e1. evIndex ev < k" "\<forall>ev \<in> set e3. k < evIndex ev"
    "failedTasks s' = failedTasks sk' @ ts"
proof -
  from mapSeries_nth [OF run k] obtain sk sk' where
    pre: "mapSeries (taskEntry d) 0 (take k q) s = (Inr (take k raw), sk)" and
    step: "executeTask d k (fst (q ! k)) (snd (q ! k)) sk = (Inr (raw ! k), sk')" and
    suf: "mapSeries (taskEntry d) (Suc k) (drop (Suc k) q) sk' = (Inr (drop (Suc k) raw), s')"
    by auto
  from tasks_trace [of d 0 "take k q" s] pre k obtain e1 where
    e1: "trace sk = trace s @ e1" "\<forall>ev \<in> set e1. evIndex ev < k" by auto
  from executeTask_trace [of d k "fst (q ! k)" "snd (q ! k)" sk] step obtain e2 where
    e2: "trace sk' = trace sk @ e2" by auto
  from tasks_trace [of d "Suc k" "drop (Suc k) q" sk'] suf obtain e3 where
    e3: "trace s' = trace sk' @ e3" and
    e3': "\<forall>ev \<in> set e3. Suc k \<le> evIndex ev \<and> evIndex ev < Suc k + length (drop (Suc k) q)"
    by auto
  from e3' have e3'': "\<forall>ev \<in> set e3. k < evIndex ev" by auto
  from tasks_failedTasks [of d "Suc k" "drop (Suc k) q" sk'] suf obtain ts where
    ts: "failedTasks s' = failedTasks sk' @ ts" by auto
  from that [OF pre step suf e1(1) e2 e3 e1(2) e3'' ts] show ?thesis .
qed

lemma execute_Inr:
  assumes "execute d this = (Inr rs, this3)"
  obtains us this1 raw this2 us' where
    "executePreBuild this = (Inr us, this1)"
    "runTasks d this1 = (Inr raw, this2)"
    "rs = compact raw"
    "executePostBuild rs this2 = (Inr us', this3)"
  using assms unfolding execute_def
  by (auto simp add: Let_def split: prod.splits sum.splits)

lemma set_compact: "set (compact raw) = {r. Some r \<in> set raw}"
  by (induction raw rule: compact.induct) auto

lemma compact_nths:
  assumes "length raw = length xs"
    and "\<forall>k < length xs. \<forall>r. raw ! k = Some r \<longrightarrow> g r = h (xs ! k)"
  shows "map g (compact raw) = map h (nths xs {k. raw ! k \<noteq> None})"
  using assms
proof (induction raw xs rule: list_induct2)
  case Nil
  then show ?case by simp
next
  case (Cons y raw x xs)
  have ih: "map g (compact raw) = map h (nths xs {k. raw ! k \<noteq> None})"
    using Cons.IH Cons.prems by fastforce
  show ?case
  proof (cases y)
    case None
    then show ?thesis using ih by (simp add: nths_Cons)
  next
    case (Some r)
    from Cons.prems Some have "g r = h x" by fastforce
    with Some ih show ?thesis by (simp add: nths_Cons)
  qed
qed

lemma nths_cong_below:
  assumes "\<forall>k < length xs. (k \<in> A) = (k \<in> B)"
  shows "nths xs A = nths xs B"
proof -
  have "filter (\<lambda>p. snd p \<in> A) (zip xs [0..<length xs]) = filter (\<lambda>p. snd p \<in> B) (zip xs [0..<length xs])"
    using assms by (intro filter_cong refl) (auto dest!: set_zip_rightD)
  then show ?thesis by (simp add: nths_def)
qed

lemma card_not_below:
  "card {k. k < n \<and> \<not> P k} = n - card {k. k < n \<and> P k}"
proof -
  have "{k. k < n \<and> \<not> P k} \<union> {k. k < n \<and> P k} = {..<n}" by auto
  moreover have "{k. k < n \<and> \<not> P k} \<inter> {k. k < n \<and> P k} = {}" by auto
  ultimately have "card {k. k < n \<and> \<not> P k} + card {k. k < n \<and> P k} = n"
    by (metis (no_types, lifting) card_Un_disjoint card_lessThan finite_Un finite_lessThan)
  then show ?thesis by simp
qed

lemma fresh_run:
  assumes ex: "execute d (BuildPipe_from queue contexts factory) = (Inr rs, this')"
  obtains this1 raw this2 pre post where
    "mapSeries (taskEntry d) 0 queue this1 = (Inr raw, this2)"
    "rs = compact raw" "length raw = length queue"
    "trace this1 = pre" "\<forall>ev \<in> set pre. ev = PreBuildHook (evIndex ev)"
    "trace this' = trace this2 @ post" "\<forall>ev \<in> set post. ev = PostBuildHook (evIndex ev)"
    "failedTasks this1 = []" "failedDependencyTask this1 = None"
    "failedTasks this' = failedTasks this2"
    "failedDependencyTask this' = failedDependencyTask this2"
    "envsBuildContext this1 = contexts"
proof -
  let ?p = "BuildPipe_from queue contexts factory"
  from execute_Inr [OF ex] obtain us this1 raw this2 us' where
    pre: "executePreBuild ?p = (Inr us, this1)" and
    run: "runTasks d this1 = (Inr raw, this2)" and
    rs: "rs = compact raw" and
    post: "executePostBuild rs this2 = (Inr us', this')"
    by blast
  have q1: "tasksQueue this1 = queue" "failedTasks this1 = []" "failedDependencyTask this1 = None"
    "envsBuildContext this1 = contexts"
    using executePreBuild_frame [of ?p] pre by (simp_all add: BuildPipe_from_def)
  from run q1 have run': "mapSeries (taskEntry d) 0 queue this1 = (Inr raw, this2)"
    by (simp add: runTasks_def)
  from executePreBuild_trace [of ?p] pre
  have t1: "\<forall>ev \<in> set (trace this1). ev = PreBuildHook (evIndex ev)"
    by (auto simp add: BuildPipe_from_def)
  from executePostBuild_trace [of rs this2] post obtain evs where
    t3: "trace this' = trace this2 @ evs" "\<forall>ev \<in> set evs. ev = PostBuildHook (evIndex ev)"
    by auto
  from executePostBuild_frame [of rs this2] post
  have f3: "failedTasks this' = failedTasks this2"
    "failedDependencyTask this' = failedDependencyTask this2" by simp_all
  from that [OF run' rs mapSeries_length [OF run'] refl t1 t3 q1(2,3) f3 q1(4)]
  show ?thesis .
qed

lemma run_entry_facts:
  assumes run: "mapSeries (taskEntry d) 0 q s = (Inr raw, s')" and k: "k < length q"
    and pre: "\<forall>ev \<in> set (trace s). ev = PreBuildHook (evIndex ev)"
  shows "(raw ! k = None) = (ConsoleWarning k \<in> set (trace s'))"
    and "raw ! k = None \<Longrightarrow> ExecuteHook k \<notin> set (trace s')"
    and "raw ! k = Some r \<Longrightarrow>
           task r = task_info.truncate (fst (q ! k)) \<and> env r = snd (q ! k) \<and>
           (artifacts r \<noteq> None) = (\<forall>c \<in> set (componentsResults r). \<not> hasErrors c) \<and>
           (artifacts r = None \<longrightarrow>
              fst (q ! k) \<in> set (failedTasks s') \<and> ArtifactsGenerated k \<notin> set (trace s'))"
proof -
  obtain sk sk' e1 e2 e3 ts where
    step: "executeTask d k (fst (q ! k)) (snd (q ! k)) sk = (Inr (raw ! k), sk')" and
    tr: "trace sk = trace s @ e1" "trace sk' = trace sk @ e2" "trace s' = trace sk' @ e3" and
    ix: "\<forall>ev \<in> set e1. evIndex ev < k" "\<forall>ev \<in> set e3. k < evIndex ev" and
    ft: "failedTasks s' = failedTasks sk' @ ts"
    by (rule run_entry [OF run k])
  have away: "ev \<notin> set (trace s) \<and> ev \<notin> set e1 \<and> ev \<notin> set e3"
    if "evIndex ev = k" "\<forall>j. ev \<noteq> PreBuildHook j" for ev
  proof (intro conjI notI)
    assume "ev \<in> set (trace s)"
    with pre have "ev = PreBuildHook (evIndex ev)" by blast
    with that(2) show False by blast
  next
    assume "ev \<in> set e1"
    with ix(1) that(1) show False by auto
  next
    assume "ev \<in> set e3"
    with ix(2) that(1) show False by auto
  qed
  have tr': "set (trace s') = set (trace s) \<union> set e1 \<union> set e2 \<union> set e3"
    using tr by auto
  have w: "ConsoleWarning k \<in> set (trace s') = (ConsoleWarning k \<in> set e2)"
    using away [of "ConsoleWarning k"] tr' by simp
  have x: "ExecuteHook k \<in> set (trace s') = (ExecuteHook k \<in> set e2)"
    using away [of "ExecuteHook k"] tr' by simp
  have a: "ArtifactsGenerated k \<in> set (trace s') = (ArtifactsGenerated k \<in> set e2)"
    using away [of "ArtifactsGenerated k"] tr' by simp
  show "(raw ! k = None) = (ConsoleWarning k \<in> set (trace s'))"
  proof (cases "raw ! k")
    case None
    with step have "trace sk' = trace sk @ [ConsoleWarning k]"
      by (simp add: executeTask_skipped_trace)
    with tr(2) have "e2 = [ConsoleWarning k]" by simp
    with None w show ?thesis by simp
  next
    case (Some r)
    with step have "executeTask d k (fst (q ! k)) (snd (q ! k)) sk = (Inr (Some r), sk')" by simp
    from executeTask_result [OF this] tr(2)
    have "e2 = [ExecuteHook k, ConsoleFailure k] \<or>
          e2 = [ExecuteHook k, ConsoleSuccess k, ArtifactsGenerated k]" by auto
    with Some w show ?thesis by auto
  qed
  show "ExecuteHook k \<notin> set (trace s')" if "raw ! k = None"
  proof -
    from that step have "trace sk' = trace sk @ [ConsoleWarning k]"
      by (simp add: executeTask_skipped_trace)
    with tr(2) have "e2 = [ConsoleWarning k]" by simp
    with x show ?thesis by simp
  qed
  show "task r = task_info.truncate (fst (q ! k)) \<and> env r = snd (q ! k) \<and>
           (artifacts r \<noteq> None) = (\<forall>c \<in> set (componentsResults r). \<not> hasErrors c) \<and>
           (artifacts r = None \<longrightarrow>
              fst (q ! k) \<in> set (failedTasks s') \<and> ArtifactsGenerated k \<notin> set (trace s'))"
    if "raw ! k = Some r"
  proof -
    from that step have "executeTask d k (fst (q ! k)) (snd (q ! k)) sk = (Inr (Some r), sk')" by simp
    note res = executeTask_result [OF this]
    from res have m: "task r = task_info.truncate (fst (q ! k))" "env r = snd (q ! k)"
      by blast+
    from res have m3: "(artifacts r \<noteq> None) = (\<forall>c \<in> set (componentsResults r). \<not> hasErrors c)"
      by (elim conjE disjE) simp_all
    have "fst (q ! k) \<in> set (failedTasks s') \<and> ArtifactsGenerated k \<notin> set (trace s')"
      if n: "artifacts r = None"
    proof -
      from res n have f: "failedTasks sk' = failedTasks sk @ [fst (q ! k)]"
        and "trace sk' = trace sk @ [ExecuteHook k, ConsoleFailure k]" by blast+
      with tr(2) have "e2 = [ExecuteHook k, ConsoleFailure k]" by simp
      with a have "ArtifactsGenerated k \<notin> set (trace s')" by simp
      with f ft show ?thesis by simp
    qed
    with m m3 show ?thesis by blast
  qed
qed

lemma fresh_entry_facts:
  assumes ex: "execute d (BuildPipe_from queue contexts factory) = (Inr rs, this')"
  obtains raw where
    "rs = compact raw" "length raw = length queue"
    "\<forall>k < length queue. (raw ! k = None) = skipped this' k"
    "\<forall>k < length queue. raw ! k = None \<longrightarrow> ExecuteHook k \<notin> set (trace this')"
    "\<forall>k < length queue. \<forall>r. raw ! k = Some r \<longrightarrow>
           task r = task_info.truncate (fst (queue ! k)) \<and> env r = snd (queue ! k) \<and>
           (artifacts r \<noteq> None) = (\<forall>c \<in> set (componentsResults r). \<not> hasErrors c) \<and>
           (artifacts r = None \<longrightarrow>
              fst (queue ! k) \<in> set (failedTasks this') \<and> ArtifactsGenerated k \<notin> set (trace this'))"
proof -
  obtain this1 raw this2 pre post where
    run: "mapSeries (taskEntry d) 0 queue this1 = (Inr raw, this2)" and
    rs: "rs = compact raw" "length raw = length queue" and
    pre: "trace this1 = pre" "\<forall>ev \<in> set pre. ev = PreBuildHook (evIndex ev)" and
    post: "trace this' = trace this2 @ post" "\<forall>ev \<in> set post. ev = PostBuildHook (evIndex ev)" and
    "failedTasks this1 = []" "failedDependencyTask this1 = None" and
    ft: "failedTasks this' = failedTasks this2" and
    "failedDependencyTask this' = failedDependencyTask this2" and
    "envsBuildContext this1 = contexts"
    by (rule fresh_run [OF ex])
  from pre have pre': "\<forall>ev \<in> set (trace this1). ev = PreBuildHook (evIndex ev)" by simp
  have p: "(ev \<in> set (trace this')) = (ev \<in> set (trace this2))" if "\<forall>j. ev \<noteq> PostBuildHook j" for ev
    using post that by auto
  have 1: "(raw ! k = None) = skipped this' k" if "k < length queue" for k
    using run_entry_facts(1) [OF run that pre'] p [of "ConsoleWarning k"] by (simp add: skipped_def)
  have 2: "ExecuteHook k \<notin> set (trace this')" if "k < length queue" "raw ! k = None" for k
    using run_entry_facts(2) [OF run that(1) pre' that(2)] p [of "ExecuteHook k"] by simp
  have 3: "task r = task_info.truncate (fst (queue ! k)) \<and> env r = snd (queue ! k) \<and>
           (artifacts r \<noteq> None) = (\<forall>c \<in> set (componentsResults r). \<not> hasErrors c) \<and>
           (artifacts r = None \<longrightarrow>
              fst (queue ! k) \<in> set (failedTasks this') \<and> ArtifactsGenerated k \<notin> set (trace this'))"
    if "k < length queue" "raw ! k = Some r" for k r
    using run_entry_facts(3) [OF run that(1) pre' that(2)] p [of "ArtifactsGenerated k"] ft by simp
  from 1 2 3 have
    "\<forall>k < length queue. (raw ! k = None) = skipped this' k"
    "\<forall>k < length queue. raw ! k = None \<longrightarrow> ExecuteHook k \<notin> set (trace this')"
    "\<forall>k < length queue. \<forall>r. raw ! k = Some r \<longrightarrow>
           task r = task_info.truncate (fst (queue ! k)) \<and> env r = snd (queue ! k) \<and>
           (artifacts r \<noteq> None) = (\<forall>c \<in> set (componentsResults r). \<not> hasErrors c) \<and>
           (artifacts r = None \<longrightarrow>
              fst (queue ! k) \<in> set (failedTasks this') \<and> ArtifactsGenerated k \<notin> set (trace this'))"
    by blast+
  with rs show ?thesis by (rule that)
qed

lemma update_no_failed:
  "failedTasks s = [] \<Longrightarrow> updateFailedDependencyTask d t s = s"
  by (simp add: updateFailedDependencyTask_def)

lemma tasks_all_succeed:
  fixes s :: "('ctx, 'adef, 'art) build_pipe"
  assumes "\<forall>entry \<in> set xs. \<forall>ctx res.
             contexts (envId (snd entry)) = Some ctx \<and>
             executeHook (fst entry) ctx = Inr res \<longrightarrow>
             (\<forall>c \<in> set (builtComponentsResults res). \<not> hasErrors c)"
    and "failedTasks s = []" and "failedDependencyTask s = None"
    and "mapSeries (taskEntry d) i xs s = (Inr raw, s')"
    and "envsBuildContext s = contexts"
  shows "map (\<lambda>r. (task r, env r)) (compact raw) =
           map (\<lambda>entry. (task_info.truncate (fst entry), snd entry)) xs \<and>
         (\<forall>r \<in> set (compact raw). artifacts r \<noteq> None)"
  using assms
proof (induction xs arbitrary: i s raw)
  case Nil
  then show ?case by simp
next
  case (Cons x xs)
  from Cons.prems(4) obtain y s1 ys where
    step: "executeTask d i (fst x) (snd x) s = (Inr y, s1)" and
    rest: "mapSeries (taskEntry d) (Suc i) xs s1 = (Inr ys, s')" and
    raw: "raw = y # ys"
    by (auto split: prod.splits sum.splits)
  have upd: "updateFailedDependencyTask d (fst x) s = s"
    using Cons.prems(2) by (rule update_no_failed)
  have "\<exists>r. y = Some r \<and> task r = task_info.truncate (fst x) \<and> env r = snd x \<and>
          artifacts r \<noteq> None \<and> failedTasks s1 = [] \<and> failedDependencyTask s1 = None \<and>
          envsBuildContext s1 = envsBuildContext s"
  proof (rule executeTask_cases [where d=d and t="fst x" and this=s and i=i and e="snd x"])
    assume "failedDependencyTask (updateFailedDependencyTask d (fst x) s) \<noteq> None"
    with upd Cons.prems(3) show ?thesis by simp
  next
    assume "executeTask d i (fst x) (snd x) s =
      (Inl (MissingBuildContext (envId (snd x))), updateFailedDependencyTask d (fst x) s)"
    with step show ?thesis by simp
  next
    fix ctx err
    assume "executeTask d i (fst x) (snd x) s =
      (Inl err, log (ExecuteHook i) (updateFailedDependencyTask d (fst x) s))"
    with step show ?thesis by simp
  next
    fix ctx res
    assume "envsBuildContext s (envId (snd x)) = Some ctx" "executeHook (fst x) ctx = Inr res"
      "filter hasErrors (builtComponentsResults res) \<noteq> []"
    with Cons.prems(1,5) show ?thesis by (auto simp add: filter_empty_conv)
  next
    fix ctx res
    assume "executeTask d i (fst x) (snd x) s =
       (Inr (Some \<lparr>task = task_info.truncate (fst x), env = snd x,
                   componentsResults = builtComponentsResults res,
                   artifacts = Some (artifactFactory s ctx
                      (case builtArtifacts res of None \<Rightarrow> [] | Some ds \<Rightarrow> ds) (fst x))\<rparr>),
        log (ArtifactsGenerated i) (log (ConsoleSuccess i) (log (ExecuteHook i)
          (updateFailedDependencyTask d (fst x) s))))"
    with step upd Cons.prems(2,3) show ?thesis by (auto simp add: log_def)
  qed
  then obtain r where y: "y = Some r" and r: "task r = task_info.truncate (fst x)" "env r = snd x"
    "artifacts r \<noteq> None" and s1: "failedTasks s1 = []" "failedDependencyTask s1 = None"
    "envsBuildContext s1 = envsBuildContext s"
    by blast
  have nf: "\<forall>entry \<in> set xs. \<forall>ctx res.
             contexts (envId (snd entry)) = Some ctx \<and>
             executeHook (fst entry) ctx = Inr res \<longrightarrow>
             (\<forall>c \<in> set (builtComponentsResults res). \<not> hasErrors c)"
    using Cons.prems(1) by (meson list.set_intros(2))
  have "envsBuildContext s1 = contexts" using s1(3) Cons.prems(5) by simp
  from Cons.IH [OF nf s1(1,2) rest this] raw y r show ?case by simp
qed

lemma tasks_return:
  fixes s :: "('ctx, 'adef, 'art) build_pipe"
  assumes "\<forall>entry \<in> set xs. \<exists>ctx res.
             contexts (envId (snd entry)) = Some ctx \<and>
             executeHook (fst entry) ctx = Inr res"
    and "envsBuildContext s = contexts"
  shows "\<exists>raw s'. mapSeries (taskEntry d) i xs s = (Inr raw, s')"
  using assms
proof (induction xs arbitrary: i s)
  case Nil
  then show ?case by simp
next
  case (Cons x xs)
  from Cons.prems obtain ctx res where
    c: "envsBuildContext s (envId (snd x)) = Some ctx" "executeHook (fst x) ctx = Inr res"
    by auto
  have "\<exists>y s1. executeTask d i (fst x) (snd x) s = (Inr y, s1)"
    by (rule executeTask_cases [where d=d and t="fst x" and this=s and i=i and e="snd x"])
       (use c in auto)
  then obtain y s1 where step: "executeTask d i (fst x) (snd x) s = (Inr y, s1)" by blast
  from executeTask_frame(2) [of d i "fst x" "snd x" s] step Cons.prems(2)
  have e1: "envsBuildContext s1 = contexts" by simp
  from Cons.prems(1) have "\<forall>entry \<in> set xs. \<exists>ctx res.
             contexts (envId (snd entry)) = Some ctx \<and>
             executeHook (fst entry) ctx = Inr res" by (meson list.set_intros(2))
  from Cons.IH [OF this e1, of "Suc i"] obtain raw s' where
    "mapSeries (taskEntry d) (Suc i) xs s1 = (Inr raw, s')" by blast
  with step show ?case by simp
qed

lemma preBuild_return:
  fixes s :: "('ctx, 'adef, 'art) build_pipe"
  assumes "\<forall>entry \<in> set xs. \<forall>h. preBuild (fst entry) = Some h \<longrightarrow>
             (\<exists>ctx. contexts (envId (snd entry)) = Some ctx \<and> h ctx = Inr ())"
    and "envsBuildContext s = contexts"
  shows "\<exists>us s'. mapSeries preBuildEntry i xs s = (Inr us, s')"
  using assms
proof (induction xs arbitrary: i s)
  case Nil
  then show ?case by simp
next
  case (Cons x xs)
  have "\<exists>s1. preBuildEntry i x s = (Inr (), s1)"
    using Cons.prems
    by (cases "preBuild (fst x)") (auto simp add: preBuildEntry_def getBuildContext_def)
  then obtain s1 where step: "preBuildEntry i x s = (Inr (), s1)" by blast
  from preBuildEntry_frame(2) [of i x s] step Cons.prems(2)
  have e1: "envsBuildContext s1 = contexts" by simp
  from Cons.prems(1) have "\<forall>entry \<in> set xs. \<forall>h. preBuild (fst entry) = Some h \<longrightarrow>
             (\<exists>ctx. contexts (envId (snd entry)) = Some ctx \<and> h ctx = Inr ())" by (meson list.set_intros(2))
  from Cons.IH [OF this e1, of "Suc i"] obtain us s' where
    "mapSeries preBuildEntry (Suc i) xs s1 = (Inr us, s')" by blast
  with step show ?case by simp
qed

lemma postBuild_return:
  fixes s :: "('ctx, 'adef, 'art) build_pipe"
  assumes "\<forall>entry \<in> set xs. \<forall>h. postBuild (fst entry) = Some h \<longrightarrow>
             (\<exists>ctx. contexts (envId (snd entry)) = Some ctx \<and> h ctx rs = Inr ())"
    and "envsBuildContext s = contexts"
  shows "\<exists>us s'. mapSeries (postBuildEntry rs) i xs s = (Inr us, s')"
  using assms
proof (induction xs arbitrary: i s)
  case Nil
  then show ?case by simp
next
  case (Cons x xs)
  have "\<exists>s1. postBuildEntry rs i x s = (Inr (), s1)"
    using Cons.prems
    by (cases "postBuild (fst x)") (auto simp add: postBuildEntry_def getBuildContext_def)
  then obtain s1 where step: "postBuildEntry rs i x s = (Inr (), s1)" by blast
  from postBuildEntry_frame(2) [of rs i x s] step Cons.prems(2)
  have e1: "envsBuildContext s1 = contexts" by simp
  from Cons.prems(1) have "\<forall>entry \<in> set xs. \<forall>h. postBuild (fst entry) = Some h \<longrightarrow>
             (\<exists>ctx. contexts (envId (snd entry)) = Some ctx \<and> h ctx rs = Inr ())" by (meson list.set_intros(2))
  from Cons.IH [OF this e1, of "Suc i"] obtain us s' where
    "mapSeries (postBuildEntry rs) (Suc i) xs s1 = (Inr us, s')" by blast
  with step show ?case by simp
qed

lemma execute_returns:
  fixes queue :: "(('ctx, 'adef, 'art) build_task \<times> env_definition) list"
  assumes ok: "\<forall>entry \<in> set queue. \<exists>ctx. contexts (envId (snd entry)) = Some ctx \<and>
              (\<forall>h. preBuild (fst entry) = Some h \<longrightarrow> h ctx = Inr ()) \<and>
              (\<exists>res. executeHook (fst entry) ctx = Inr res) \<and>
              (\<forall>h rs. postBuild (fst entry) = Some h \<longrightarrow> h ctx rs = Inr ())"
  shows "\<exists>rs this'. execute d (BuildPipe_from queue contexts factory) = (Inr rs, this')"
proof -
  let ?p = "BuildPipe_from queue contexts factory"
  have p: "envsBuildContext ?p = contexts" "tasksQueue ?p = queue"
    by (simp_all add: BuildPipe_from_def)
  have "\<forall>entry \<in> set queue. \<forall>h. preBuild (fst entry) = Some h \<longrightarrow>
             (\<exists>ctx. contexts (envId (snd entry)) = Some ctx \<and> h ctx = Inr ())"
    using ok by meson
  from preBuild_return [OF this p(1), of 0] obtain us this1 where
    pre: "executePreBuild ?p = (Inr us, this1)"
    by (auto simp add: executePreBuild_def p(2))
  from executePreBuild_frame(1,2) [of ?p] pre p
  have p1: "tasksQueue this1 = queue" "envsBuildContext this1 = contexts" by simp_all
  have "\<forall>entry \<in> set queue. \<exists>ctx res.
             contexts (envId (snd entry)) = Some ctx \<and> executeHook (fst entry) ctx = Inr res"
    using ok by meson
  from tasks_return [OF this p1(2), of d 0] obtain raw this2 where
    run: "runTasks d this1 = (Inr raw, this2)"
    by (auto simp add: runTasks_def p1(1))
  from tasks_frame(1,2) [of d 0 queue this1] run p1
  have p2: "tasksQueue this2 = queue" "envsBuildContext this2 = contexts"
    by (simp_all add: runTasks_def)
  have "\<forall>entry \<in> set queue. \<forall>h. postBuild (fst entry) = Some h \<longrightarrow>
             (\<exists>ctx. contexts (envId (snd entry)) = Some ctx \<and> h ctx (compact raw) = Inr ())"
    using ok by meson
  from postBuild_return [OF this p2(2), of 0] obtain us' this3 where
    post: "executePostBuild (compact raw) this2 = (Inr us', this3)"
    by (auto simp add: executePostBuild_def p2(1))
  from pre run post have "execute d ?p = (Inr (compact raw), this3)"
    by (simp add: execute_def)
  then show ?thesis by blast
qed



lemma preBuildEntry_other_contexts:
  fixes s :: "('ctx, 'adef, 'art) build_pipe"
  assumes "preBuild (fst x) \<noteq> None \<longrightarrow> contexts' (envId (snd x)) = envsBuildContext s (envId (snd x))"
  shows "preBuildEntry i x (s\<lparr>envsBuildContext := contexts'\<rparr>) =
           (fst (preBuildEntry i x s), (snd (preBuildEntry i x s))\<lparr>envsBuildContext := contexts'\<rparr>)"
  using assms
  by (cases "preBuild (fst x)")
     (auto simp add: preBuildEntry_def getBuildContext_def log_def split: option.splits sum.splits)

lemma preBuild_other_contexts:
  fixes s :: "('ctx, 'adef, 'art) build_pipe"
  assumes "\<forall>entry \<in> set xs. preBuild (fst entry) \<noteq> None \<longrightarrow>
             contexts' (envId (snd entry)) = contexts (envId (snd entry))"
    and "envsBuildContext s = contexts"
  shows "mapSeries preBuildEntry i xs (s\<lparr>envsBuildContext := contexts'\<rparr>) =
           (fst (mapSeries preBuildEntry i xs s),
            (snd (mapSeries preBuildEntry i xs s))\<lparr>envsBuildContext := contexts'\<rparr>)"
  using assms
proof (induction xs arbitrary: i s)
  case Nil
  then show ?case by simp
next
  case (Cons x xs)
  have "preBuild (fst x) \<noteq> None \<longrightarrow> contexts' (envId (snd x)) = envsBuildContext s (envId (snd x))"
    using Cons.prems by simp
  note step = preBuildEntry_other_contexts [of x contexts' s i, OF this]
  obtain r s1 where fx: "preBuildEntry i x s = (r, s1)" by (cases "preBuildEntry i x s")
  from preBuildEntry_frame(2) [of i x s] fx Cons.prems(2)
  have e1: "envsBuildContext s1 = contexts" by simp
  have rest: "\<forall>entry \<in> set xs. preBuild (fst entry) \<noteq> None \<longrightarrow>
             contexts' (envId (snd entry)) = contexts (envId (snd entry))"
    using Cons.prems(1) by (meson list.set_intros(2))
  note ih = Cons.IH [OF rest e1, of "Suc i"]
  show ?case
    using step fx ih by (cases r) (simp_all split: prod.splits sum.splits)
qed

lemma preBuild_aborts_at:
  fixes s :: "('ctx, 'adef, 'art) build_pipe"
  assumes k: "k < length queue" and h: "preBuild (fst (queue ! k)) \<noteq> None"
    and c: "envsBuildContext s (envId (snd (queue ! k))) = None"
  shows "\<exists>err s' evs. mapSeries preBuildEntry 0 queue s = (Inl err, s') \<and>
           trace s' = trace s @ evs \<and>
           (\<forall>ev \<in> set evs. evIndex ev < k \<and> ev = PreBuildHook (evIndex ev))"
proof -
  let ?pre = "mapSeries preBuildEntry 0 (take k queue) s"
  have q: "queue = take k queue @ (queue ! k # drop (Suc k) queue)"
    using k by (simp add: id_take_nth_drop)
  have lk: "length (take k queue) = k" using k by simp
  from mapSeries_trace [of preBuildEntry "\<lambda>ev. ev = PreBuildHook (evIndex ev)" 0 "take k queue" s,
      OF preBuildEntry_trace] lk
  obtain evs where
    t: "trace (snd ?pre) = trace s @ evs"
    "\<forall>ev \<in> set evs. evIndex ev < k \<and> ev = PreBuildHook (evIndex ev)" by auto
  have e: "envsBuildContext (snd ?pre) = envsBuildContext s"
    by (rule mapSeries_frame) (simp add: preBuildEntry_frame)
  obtain r s1 where pre: "?pre = (r, s1)" by (cases ?pre)
  have stepk: "preBuildEntry k (queue ! k) s1 = (Inl (MissingBuildContext (envId (snd (queue ! k)))), s1)"
    using h c e pre by (auto simp add: preBuildEntry_def getBuildContext_def)
  have "\<exists>err. mapSeries preBuildEntry 0 (take k queue @ (queue ! k # drop (Suc k) queue)) s = (Inl err, s1)"
    unfolding mapSeries_append using pre stepk lk by (cases r) simp_all
  with q t pre show ?thesis by auto
qed

lemma queueSkip_returns:
  "\<exists>rs this'. execute deserializeId (BuildPipe_from queueSkip contexts1 countDefs) = (Inr rs, this')"
  by (simp add: pipe_defs example_defs queue_defs)

section \<open>Claims about one task\<close>

text \<open>
  C6. A dependency matches a failed task exactly when the owner ids are equal and,
  if the dependency gives a name, the failed task has that very name. The code tests
  the name with \<^verbatim>\<open>name &&\<close>, so a dependency gives a name when its deserialized name is
  defined and not the empty string; a dependency without one matches every failed task
  of that owner id, whatever its name. This holds for every deserializer \<open>d\<close>.
\<close>

theorem dependency_match_rule:
  "matchesFailedTask (d dependency) failedTask =
     (aspectId (d dependency) = aspectId failedTask \<and>
      (case name (d dependency) of
         None \<Rightarrow> True
       | Some n \<Rightarrow> n = [] \<or> name failedTask = Some n))"
  by (auto simp add: matchesFailedTask_def split: option.splits)

theorem dependency_match_rule_witness:
  "matchesFailedTask (deserializeId ''owner:x'') (mkTask ''owner'' (Some ''x'') None failing)
   \<and> \<not> matchesFailedTask (deserializeId ''owner:x'') (mkTask ''owner'' (Some ''y'') None failing)
   \<and> matchesFailedTask (deserializeId ''owner'') (mkTask ''owner'' (Some ''y'') None failing)
   \<and> name (deserializeId ''owner:x'') = Some ''x''"
  using dependency_match_rule [of deserializeId "''owner:x''" "mkTask ''owner'' (Some ''x'') None failing"]
    dependency_match_rule [of deserializeId "''owner:x''" "mkTask ''owner'' (Some ''y'') None failing"]
    dependency_match_rule [of deserializeId "''owner''" "mkTask ''owner'' (Some ''y'') None failing"]
  by (simp add: example_defs)

text \<open>
  C10. A component result whose \<^verbatim>\<open>errors\<close> field is absent counts like one whose
  \<^verbatim>\<open>errors\<close> is empty: neither has errors. A task that is not skipped, whose build context
  exists and whose execute hook returns only such component results, gets a result with
  artifacts, the artifact factory is called for it, and it is not added to the failed
  tasks.
\<close>

theorem absent_errors_succeed:
  assumes "failedDependencyTask (updateFailedDependencyTask d t this) = None"
    and "envsBuildContext this (envId e) = Some ctx"
    and "executeHook t ctx = Inr res"
    and "\<forall>c \<in> set (builtComponentsResults res). errors c = None \<or> errors c = Some []"
  shows "(\<forall>c. hasErrors (c\<lparr>errors := None\<rparr>) = hasErrors (c\<lparr>errors := Some []\<rparr>)) \<and>
         (\<exists>r this'. executeTask d i t e this = (Inr (Some r), this')
            \<and> artifacts r \<noteq> None
            \<and> failedTasks this' = failedTasks this
            \<and> ArtifactsGenerated i \<in> set (trace this'))"
proof -
  have "\<not> hasErrors c" if "c \<in> set (builtComponentsResults res)" for c
    using assms(4) that by (auto simp add: hasErrors_def)
  then have "filter hasErrors (builtComponentsResults res) = []"
    by (simp add: filter_empty_conv)
  from executeTask_succeeded [OF assms(1-3) this, of i]
  show ?thesis by (simp add: hasErrors_def log_def)
qed

theorem absent_errors_succeed_witness:
  "\<exists>r this'. executeTask deserializeId 0 (mkTask ''A'' None None passing) env1
       (BuildPipe_from [] contexts1 countDefs) = (Inr (Some r), this')
     \<and> artifacts r \<noteq> None
     \<and> failedTasks this' = failedTasks (BuildPipe_from [] contexts1 countDefs)
     \<and> ArtifactsGenerated 0 \<in> set (trace this')"
proof -
  let ?t = "mkTask ''A'' None None passing"
  let ?pipe = "BuildPipe_from [] contexts1 countDefs"
  have h1: "failedDependencyTask (updateFailedDependencyTask deserializeId ?t ?pipe) = None"
    by (simp add: updateFailedDependencyTask_def example_defs)
  have h2: "envsBuildContext ?pipe (envId env1) = Some 7"
    by (simp add: example_defs)
  have h3: "executeHook ?t 7 = passing 7"
    by (simp add: mkTask_def)
  have h3': "passing 7 = Inr \<lparr>builtComponentsResults =
            [\<lparr>componentId = ''c'', errors = None\<rparr>, \<lparr>componentId = ''d'', errors = Some []\<rparr>],
          builtArtifacts = None\<rparr>"
    by (simp add: passing_def)
  have h4: "\<forall>c \<in> set (builtComponentsResults \<lparr>builtComponentsResults =
            [\<lparr>componentId = ''c'', errors = None\<rparr>, \<lparr>componentId = ''d'', errors = Some []\<rparr>],
          builtArtifacts = (None :: nat list option)\<rparr>). errors c = None \<or> errors c = Some []"
    by simp
  from absent_errors_succeed [OF h1 h2 h3 [unfolded h3'] h4, of 0]
  show ?thesis by blast
qed

text \<open>
  C8 as stated does not hold: \<open>executeTask\<close> decides about the skip first and looks
  the build context up afterwards. In \<open>queueSkip\<close> the second entry is in an environment
  without build context; the run of the tasks returns, with \<^verbatim>\<open>null\<close> for that entry.
\<close>

theorem missing_env_skipped_counterexample:
  "contexts1 (envId (snd (queueSkip ! 1))) = None \<and>
   (\<exists>r this'. runTasks deserializeId (BuildPipe_from queueSkip contexts1 countDefs) =
      (Inr [Some r, None], this'))"
  by (simp add: pipe_defs example_defs queue_defs)

text \<open>
  C8, amended. For an entry whose environment has no build context, \<open>executeTask\<close>
  first updates the cause and decides about the skip. If a cause is recorded the entry
  is skipped with the warning, and no error is raised; otherwise the lookup raises the
  missing-context error before anything else is called for the entry.
\<close>

theorem missing_env_skip_first:
  assumes "envsBuildContext this (envId e) = None"
  shows "(failedDependencyTask (updateFailedDependencyTask d t this) \<noteq> None \<longrightarrow>
            fst (executeTask d i t e this) = Inr None \<and>
            trace (snd (executeTask d i t e this)) = trace this @ [ConsoleWarning i]) \<and>
         (failedDependencyTask (updateFailedDependencyTask d t this) = None \<longrightarrow>
            fst (executeTask d i t e this) = Inl (MissingBuildContext (envId e)) \<and>
            trace (snd (executeTask d i t e this)) = trace this)"
  using assms by (auto simp add: executeTask_skip executeTask_missing log_def)

theorem missing_env_skip_first_witness:
  "fst (executeTask deserializeId 1 (mkTask ''B'' None (Some [''A'']) passing) env2
          (BuildPipe_from queueSkip contexts1 countDefs)) = Inl (MissingBuildContext ''env2'') \<and>
   fst (executeTask deserializeId 1 (mkTask ''B'' None (Some [''A'']) passing) env2
          ((BuildPipe_from queueSkip contexts1 countDefs)
             \<lparr>failedTasks := [mkTask ''A'' None None failing]\<rparr>)) = Inr None"
proof -
  let ?p = "BuildPipe_from queueSkip contexts1 countDefs"
  let ?p' = "?p\<lparr>failedTasks := [mkTask ''A'' None None failing]\<rparr>"
  let ?b = "mkTask ''B'' None (Some [''A'']) passing"
  have c: "envsBuildContext ?p (envId env2) = None" "envsBuildContext ?p' (envId env2) = None"
    by (simp_all add: example_defs)
  have n: "failedDependencyTask (updateFailedDependencyTask deserializeId ?b ?p) = None"
    by (simp add: updateFailedDependencyTask_def example_defs)
  have s: "failedDependencyTask (updateFailedDependencyTask deserializeId ?b ?p') \<noteq> None"
    by (simp add: updateFailedDependencyTask_def matchesFailedTask_def example_defs)
  from missing_env_skip_first [OF c(1), of deserializeId ?b 1] n
    missing_env_skip_first [OF c(2), of deserializeId ?b 1] s
  show ?thesis by (simp add: env2_def)
qed

text \<open>
  C2. The scan of the source does not record the first match. The body of its
  \<^verbatim>\<open>forEach\<close> assigns the cause at every dependency, so the match of the last dependency
  stays, also when this is no match at all (lemma \<open>updateFailedDependencyTask_eq\<close>). With
  \<^verbatim>\<open>A\<close> failed and \<^verbatim>\<open>B\<close> not, the scan of a task that depends on \<^verbatim>\<open>A\<close> and on \<^verbatim>\<open>B\<close> in
  this order records no cause, where the first match of the specification is \<^verbatim>\<open>A\<close>; in
  the run of \<open>queueOverwrite\<close> the dependent task \<^verbatim>\<open>C\<close> is therefore executed.
\<close>

theorem first_match_overwritten:
  "failedDependencyTask
     (updateFailedDependencyTask deserializeId (mkTask ''C'' None (Some [''A'', ''B'']) passing)
        ((BuildPipe_from queueOverwrite contexts1 countDefs)
           \<lparr>failedTasks := [mkTask ''A'' None None failing]\<rparr>)) = None \<and>
   firstMatch deserializeId [''A'', ''B''] [mkTask ''A'' None None failing :: (nat, nat, nat) build_task] =
     Some (mkTask ''A'' None None failing) \<and>
   (\<exists>rs this'. execute deserializeId (BuildPipe_from queueOverwrite contexts1 countDefs) = (Inr rs, this') \<and>
      map (\<lambda>r. aspectId (task r)) rs = [''A'', ''B'', ''C''] \<and>
      failedTasks this' = [mkTask ''A'' None None failing] \<and>
      trace this' = [ExecuteHook 0, ConsoleFailure 0, ExecuteHook 1, ConsoleSuccess 1, ArtifactsGenerated 1,
                     ExecuteHook 2, ConsoleSuccess 2, ArtifactsGenerated 2])"
  by (simp add: pipe_defs example_defs queue_defs)

section \<open>Claims about a run\<close>

text \<open>
  C1. Take a fresh pipe over a queue in which no task fails: whenever the execute hook
  of an entry returns a result for the build context of its environment, no component
  result in it has errors. Then every list that \<^verbatim>\<open>execute\<close> returns has the length of the
  queue, names the tasks and environments of the queue in the order of the queue, and
  has artifacts in every entry. And \<^verbatim>\<open>execute\<close> does return a list when, in addition,
  every environment of the queue has a build context and no hook throws.
\<close>

theorem all_succeed_all_results:
  fixes queue :: "(('ctx, 'adef, 'art) build_task \<times> env_definition) list"
  assumes nofail: "\<forall>entry \<in> set queue. \<forall>ctx res.
             contexts (envId (snd entry)) = Some ctx \<and>
             executeHook (fst entry) ctx = Inr res \<longrightarrow>
             (\<forall>c \<in> set (builtComponentsResults res). \<not> hasErrors c)"
  shows "(\<forall>rs this'. execute d (BuildPipe_from queue contexts factory) = (Inr rs, this') \<longrightarrow>
            length rs = length queue \<and>
            map (\<lambda>r. (task r, env r)) rs =
              map (\<lambda>entry. (task_info.truncate (fst entry), snd entry)) queue \<and>
            (\<forall>r \<in> set rs. artifacts r \<noteq> None)) \<and>
         ((\<forall>entry \<in> set queue. \<exists>ctx. contexts (envId (snd entry)) = Some ctx \<and>
              (\<forall>h. preBuild (fst entry) = Some h \<longrightarrow> h ctx = Inr ()) \<and>
              (\<exists>res. executeHook (fst entry) ctx = Inr res) \<and>
              (\<forall>h rs. postBuild (fst entry) = Some h \<longrightarrow> h ctx rs = Inr ())) \<longrightarrow>
          (\<exists>rs this'. execute d (BuildPipe_from queue contexts factory) = (Inr rs, this')))"
proof (intro conjI allI impI)
  fix rs this'
  assume ex: "execute d (BuildPipe_from queue contexts factory) = (Inr rs, this')"
  obtain this1 raw this2 pre post where
    run: "mapSeries (taskEntry d) 0 queue this1 = (Inr raw, this2)" and
    rs: "rs = compact raw" "length raw = length queue" and
    "trace this1 = pre" "\<forall>ev \<in> set pre. ev = PreBuildHook (evIndex ev)"
    "trace this' = trace this2 @ post" "\<forall>ev \<in> set post. ev = PostBuildHook (evIndex ev)" and
    f1: "failedTasks this1 = []" "failedDependencyTask this1 = None" and
    "failedTasks this' = failedTasks this2"
    "failedDependencyTask this' = failedDependencyTask this2" and
    e1: "envsBuildContext this1 = contexts"
    by (rule fresh_run [OF ex])
  from tasks_all_succeed [OF nofail f1 run e1] rs(1)
  have m: "map (\<lambda>r. (task r, env r)) rs =
              map (\<lambda>entry. (task_info.truncate (fst entry), snd entry)) queue"
    and a: "\<forall>r \<in> set rs. artifacts r \<noteq> None" by simp_all
  from arg_cong [OF m, of length] show "length rs = length queue" by simp
  from m show "map (\<lambda>r. (task r, env r)) rs =
              map (\<lambda>entry. (task_info.truncate (fst entry), snd entry)) queue" .
  from a show "\<forall>r \<in> set rs. artifacts r \<noteq> None" .
next
  assume "\<forall>entry \<in> set queue. \<exists>ctx. contexts (envId (snd entry)) = Some ctx \<and>
              (\<forall>h. preBuild (fst entry) = Some h \<longrightarrow> h ctx = Inr ()) \<and>
              (\<exists>res. executeHook (fst entry) ctx = Inr res) \<and>
              (\<forall>h rs. postBuild (fst entry) = Some h \<longrightarrow> h ctx rs = Inr ())"
  then show "\<exists>rs this'. execute d (BuildPipe_from queue contexts factory) = (Inr rs, this')"
    by (rule execute_returns)
qed

theorem all_succeed_all_results_witness:
  "\<exists>rs this'. execute deserializeId (BuildPipe_from queueOk contexts1 countDefs) = (Inr rs, this') \<and>
      length rs = length queueOk \<and>
      map (\<lambda>r. (task r, env r)) rs =
        map (\<lambda>entry. (task_info.truncate (fst entry), snd entry)) queueOk \<and>
      (\<forall>r \<in> set rs. artifacts r \<noteq> None)"
proof -
  have nf: "\<forall>entry \<in> set queueOk. \<forall>ctx res.
             contexts1 (envId (snd entry)) = Some ctx \<and>
             executeHook (fst entry) ctx = Inr res \<longrightarrow>
             (\<forall>c \<in> set (builtComponentsResults res). \<not> hasErrors c)"
    by (auto simp add: queueOk_def mkTask_def passing_def hasErrors_def)
  have ok: "\<forall>entry \<in> set queueOk. \<exists>ctx. contexts1 (envId (snd entry)) = Some ctx \<and>
              (\<forall>h. preBuild (fst entry) = Some h \<longrightarrow> h ctx = Inr ()) \<and>
              (\<exists>res. executeHook (fst entry) ctx = Inr res) \<and>
              (\<forall>h rs. postBuild (fst entry) = Some h \<longrightarrow> h ctx rs = Inr ())"
    by (simp add: queueOk_def mkTask_def passing_def contexts1_def env1_def)
  note th = all_succeed_all_results [OF nf, of deserializeId countDefs]
  from th ok obtain rs this' where
    "execute deserializeId (BuildPipe_from queueOk contexts1 countDefs) = (Inr rs, this')"
    by blast
  with th show ?thesis by blast
qed

text \<open>
  C3. In every list that \<^verbatim>\<open>execute\<close> returns for a fresh pipe, a result has artifacts
  exactly when none of its component results has errors. The list is the list of the
  results of the entries, in order, without the skipped ones; when the result of entry
  \<open>k\<close> has no artifacts, the task of entry \<open>k\<close> is among the failed tasks at the end of
  the run and the artifact factory was never called for entry \<open>k\<close>.
\<close>

theorem artifacts_iff_no_errors:
  fixes queue :: "(('ctx, 'adef, 'art) build_task \<times> env_definition) list"
  assumes "execute d (BuildPipe_from queue contexts factory) = (Inr rs, this')"
  shows "(\<forall>r \<in> set rs. (artifacts r \<noteq> None) = (\<forall>c \<in> set (componentsResults r). \<not> hasErrors c)) \<and>
         (\<exists>raw. rs = compact raw \<and> length raw = length queue \<and>
            (\<forall>k < length queue. \<forall>r. raw ! k = Some r \<and> artifacts r = None \<longrightarrow>
               fst (queue ! k) \<in> set (failedTasks this') \<and>
               ArtifactsGenerated k \<notin> set (trace this')))"
proof -
  obtain raw where
    rs: "rs = compact raw" "length raw = length queue" and
    sk: "\<forall>k < length queue. (raw ! k = None) = skipped this' k" and
    nx: "\<forall>k < length queue. raw ! k = None \<longrightarrow> ExecuteHook k \<notin> set (trace this')" and
    res: "\<forall>k < length queue. \<forall>r. raw ! k = Some r \<longrightarrow>
           task r = task_info.truncate (fst (queue ! k)) \<and> env r = snd (queue ! k) \<and>
           (artifacts r \<noteq> None) = (\<forall>c \<in> set (componentsResults r). \<not> hasErrors c) \<and>
           (artifacts r = None \<longrightarrow>
              fst (queue ! k) \<in> set (failedTasks this') \<and> ArtifactsGenerated k \<notin> set (trace this'))"
    by (rule fresh_entry_facts [OF assms])
  have "(artifacts r \<noteq> None) = (\<forall>c \<in> set (componentsResults r). \<not> hasErrors c)"
    if "r \<in> set rs" for r
  proof -
    from that rs have "Some r \<in> set raw" by (simp add: set_compact)
    then obtain k where "k < length raw" "raw ! k = Some r" by (auto simp add: in_set_conv_nth)
    with res rs show ?thesis by simp
  qed
  moreover have "\<forall>k < length queue. \<forall>r. raw ! k = Some r \<and> artifacts r = None \<longrightarrow>
               fst (queue ! k) \<in> set (failedTasks this') \<and>
               ArtifactsGenerated k \<notin> set (trace this')"
    using res by blast
  ultimately show ?thesis using rs by blast
qed

theorem artifacts_iff_no_errors_witness:
  "\<exists>rs this'. execute deserializeId (BuildPipe_from queueSkip contexts1 countDefs) = (Inr rs, this') \<and>
      (\<forall>r \<in> set rs. (artifacts r \<noteq> None) = (\<forall>c \<in> set (componentsResults r). \<not> hasErrors c)) \<and>
      (\<exists>raw. rs = compact raw \<and> length raw = length queueSkip \<and>
         (\<forall>k < length queueSkip. \<forall>r. raw ! k = Some r \<and> artifacts r = None \<longrightarrow>
            fst (queueSkip ! k) \<in> set (failedTasks this') \<and>
            ArtifactsGenerated k \<notin> set (trace this')))"
proof -
  from queueSkip_returns obtain rs this' where
    h: "execute deserializeId (BuildPipe_from queueSkip contexts1 countDefs) = (Inr rs, this')"
    by blast
  from artifacts_iff_no_errors [OF h] h show ?thesis by blast
qed



text \<open>
  C5. The list that \<^verbatim>\<open>execute\<close> returns for a fresh pipe names the tasks and
  environments of the entries that were not skipped, in the order of the queue. So its
  length is the length of the queue minus the number of skipped entries, it is a
  subsequence of the queue, and the execute hook of a skipped entry was never called.
\<close>

theorem results_without_skipped:
  fixes queue :: "(('ctx, 'adef, 'art) build_task \<times> env_definition) list"
  assumes "execute d (BuildPipe_from queue contexts factory) = (Inr rs, this')"
  shows "map (\<lambda>r. (task r, env r)) rs =
           map (\<lambda>entry. (task_info.truncate (fst entry), snd entry))
             (nths queue {k. \<not> skipped this' k}) \<and>
         length rs = length queue - card {k. k < length queue \<and> skipped this' k} \<and>
         subseq (map (\<lambda>r. (task r, env r)) rs)
           (map (\<lambda>entry. (task_info.truncate (fst entry), snd entry)) queue) \<and>
         (\<forall>k < length queue. skipped this' k \<longrightarrow> ExecuteHook k \<notin> set (trace this'))"
proof -
  let ?g = "\<lambda>r :: 'art task_results. (task r, env r)"
  let ?h = "\<lambda>entry :: ('ctx, 'adef, 'art) build_task \<times> env_definition.
              (task_info.truncate (fst entry), snd entry)"
  obtain raw where
    rs: "rs = compact raw" "length raw = length queue" and
    sk: "\<forall>k < length queue. (raw ! k = None) = skipped this' k" and
    nx: "\<forall>k < length queue. raw ! k = None \<longrightarrow> ExecuteHook k \<notin> set (trace this')" and
    res: "\<forall>k < length queue. \<forall>r. raw ! k = Some r \<longrightarrow>
           task r = task_info.truncate (fst (queue ! k)) \<and> env r = snd (queue ! k) \<and>
           (artifacts r \<noteq> None) = (\<forall>c \<in> set (componentsResults r). \<not> hasErrors c) \<and>
           (artifacts r = None \<longrightarrow>
              fst (queue ! k) \<in> set (failedTasks this') \<and> ArtifactsGenerated k \<notin> set (trace this'))"
    by (rule fresh_entry_facts [OF assms])
  have "\<forall>k < length queue. \<forall>r. raw ! k = Some r \<longrightarrow> ?g r = ?h (queue ! k)"
    using res by simp
  from compact_nths [OF rs(2) this]
  have "map ?g rs = map ?h (nths queue {k. raw ! k \<noteq> None})" using rs(1) by simp
  also have "nths queue {k. raw ! k \<noteq> None} = nths queue {k. \<not> skipped this' k}"
    by (rule nths_cong_below) (use sk in auto)
  finally have eq: "map ?g rs = map ?h (nths queue {k. \<not> skipped this' k})" .
  from arg_cong [OF eq, of length]
  have "length rs = card {k. k < length queue \<and> \<not> skipped this' k}"
    by (simp add: length_nths)
  then have len: "length rs = length queue - card {k. k < length queue \<and> skipped this' k}"
    by (simp add: card_not_below)
  have "subseq (map ?g rs) (map ?h queue)"
    unfolding eq by (metis nths_map subseq_conv_nths)
  moreover have "\<forall>k < length queue. skipped this' k \<longrightarrow> ExecuteHook k \<notin> set (trace this')"
    using sk nx by blast
  ultimately show ?thesis using eq len by blast
qed

theorem results_without_skipped_witness:
  "\<exists>rs this'. execute deserializeId (BuildPipe_from queueSkip contexts1 countDefs) = (Inr rs, this') \<and>
      length rs = length queueSkip - card {k. k < length queueSkip \<and> skipped this' k} \<and>
      subseq (map (\<lambda>r. (task r, env r)) rs)
        (map (\<lambda>entry. (task_info.truncate (fst entry), snd entry)) queueSkip)"
proof -
  from queueSkip_returns obtain rs this' where
    h: "execute deserializeId (BuildPipe_from queueSkip contexts1 countDefs) = (Inr rs, this')"
    by blast
  from results_without_skipped [OF h] h show ?thesis by blast
qed

text \<open>
  C7 as stated does not hold. In \<open>queueSkip\<close> the second entry is in an environment
  without build context, its task has no pre-build and no post-build hook and it is
  skipped: \<^verbatim>\<open>execute\<close> returns and raises nothing. In \<open>queueLate\<close> the first entry is in
  such an environment and has no pre-build hook: \<^verbatim>\<open>execute\<close> raises the error in the
  main phase, after the pre-build hook of the second entry has run.
\<close>

theorem missing_env_no_abort_counterexample:
  "contexts1 (envId (snd (queueSkip ! 1))) = None \<and>
   (\<exists>rs this'. execute deserializeId (BuildPipe_from queueSkip contexts1 countDefs) = (Inr rs, this')) \<and>
   contexts1 (envId (snd (queueLate ! 0))) = None \<and>
   (\<exists>err this'. execute deserializeId (BuildPipe_from queueLate contexts1 countDefs) = (Inl err, this') \<and>
      PreBuildHook 1 \<in> set (trace this'))"
  by (simp add: pipe_defs example_defs queue_defs)

text \<open>
  C7, amended. When entry \<open>k\<close> of the queue defines a pre-build hook and its
  environment has no build context, \<^verbatim>\<open>execute\<close> on a fresh pipe raises an error, and all
  the pipe has called by then are pre-build hooks of entries before \<open>k\<close>: no hook of
  entry \<open>k\<close> or of a later entry, no execute hook and no post-build hook has run.
\<close>

theorem missing_env_with_preBuild_aborts:
  fixes queue :: "(('ctx, 'adef, 'art) build_task \<times> env_definition) list"
  assumes "k < length queue" and "preBuild (fst (queue ! k)) \<noteq> None"
    and "contexts (envId (snd (queue ! k))) = None"
  shows "\<exists>err this'. execute d (BuildPipe_from queue contexts factory) = (Inl err, this') \<and>
           (\<forall>ev \<in> set (trace this'). evIndex ev < k \<and> ev = PreBuildHook (evIndex ev))"
proof -
  let ?p = "BuildPipe_from queue contexts factory"
  have "envsBuildContext ?p (envId (snd (queue ! k))) = None"
    using assms(3) by (simp add: BuildPipe_from_def)
  from preBuild_aborts_at [OF assms(1,2) this] obtain err s' evs where
    "executePreBuild ?p = (Inl err, s')" "trace s' = trace ?p @ evs"
    "\<forall>ev \<in> set evs. evIndex ev < k \<and> ev = PreBuildHook (evIndex ev)"
    by (auto simp add: executePreBuild_def BuildPipe_from_def)
  then have "execute d ?p = (Inl err, s')"
    "\<forall>ev \<in> set (trace s'). evIndex ev < k \<and> ev = PreBuildHook (evIndex ev)"
    by (simp_all add: execute_def BuildPipe_from_def)
  then show ?thesis by blast
qed

theorem missing_env_with_preBuild_aborts_witness:
  "\<exists>err this'. execute deserializeId (BuildPipe_from queuePre contexts1 countDefs) = (Inl err, this') \<and>
      (\<forall>ev \<in> set (trace this'). evIndex ev < 1 \<and> ev = PreBuildHook (evIndex ev))"
proof -
  have k: "1 < length queuePre" by (simp add: queuePre_def)
  have h: "preBuild (fst (queuePre ! 1)) \<noteq> None"
    by (simp add: queuePre_def withPreBuild_def)
  have c: "contexts1 (envId (snd (queuePre ! 1))) = None"
    by (simp add: queuePre_def contexts1_def env2_def)
  from missing_env_with_preBuild_aborts [of 1 queuePre contexts1 deserializeId countDefs, OF k h c]
  show ?thesis .
qed

text \<open>
  C9 as stated does not hold in its last part: the missing environment of an entry
  without pre-build hook need not be detected in the main phase. In \<open>queueSkip\<close> the
  second entry has no pre-build hook and its environment has no build context; it is
  skipped, and \<^verbatim>\<open>execute\<close> returns without any error. In \<open>queuePost\<close> the same entry has a
  post-build hook: the main phase returns, and the error is raised by the post-build
  phase.
\<close>

theorem missing_env_not_detected_in_main_counterexample:
  "preBuild (fst (queueSkip ! 1)) = None \<and>
   contexts1 (envId (snd (queueSkip ! 1))) = None \<and>
   (\<exists>rs this'. execute deserializeId (BuildPipe_from queueSkip contexts1 countDefs) = (Inr rs, this') \<and>
      trace this' = [ExecuteHook 0, ConsoleFailure 0, ConsoleWarning 1]) \<and>
   preBuild (fst (queuePost ! 1)) = None \<and>
   contexts1 (envId (snd (queuePost ! 1))) = None \<and>
   (\<exists>raw this2. runTasks deserializeId (BuildPipe_from queuePost contexts1 countDefs) = (Inr raw, this2) \<and>
      fst (executePostBuild (compact raw) this2) = Inl (MissingBuildContext ''env2'')) \<and>
   (\<exists>this'. execute deserializeId (BuildPipe_from queuePost contexts1 countDefs) =
      (Inl (MissingBuildContext ''env2''), this'))"
  by (simp add: pipe_defs example_defs queue_defs)

text \<open>
  C9, amended. The pre-build phase looks a build context up only for entries whose
  task defines a pre-build hook. For an entry without the hook the step of the phase
  does nothing, whatever its environment, so its missing environment raises no error
  in the pre-build phase. The outcome of the phase and the hooks it calls are the same
  for two registries that agree on the environments of the entries with a hook. In the
  main phase such an entry raises the missing-context error when it is not skipped
  there; when it is skipped, the main phase raises no error for it.
\<close>

theorem preBuild_lookup_only_with_hook:
  fixes this :: "('ctx, 'adef, 'art) build_pipe"
  shows "(preBuild (fst entry) = None \<longrightarrow> preBuildEntry i entry this = (Inr (), this)) \<and>
         ((\<forall>entry \<in> set (tasksQueue this). preBuild (fst entry) \<noteq> None \<longrightarrow>
              contexts' (envId (snd entry)) = envsBuildContext this (envId (snd entry))) \<longrightarrow>
          fst (executePreBuild (this\<lparr>envsBuildContext := contexts'\<rparr>)) = fst (executePreBuild this) \<and>
          trace (snd (executePreBuild (this\<lparr>envsBuildContext := contexts'\<rparr>))) =
            trace (snd (executePreBuild this))) \<and>
         (preBuild (fst entry) = None \<and> envsBuildContext this (envId (snd entry)) = None \<and>
          failedDependencyTask (updateFailedDependencyTask d (fst entry) this) = None \<longrightarrow>
            fst (executeTask d i (fst entry) (snd entry) this) =
              Inl (MissingBuildContext (envId (snd entry)))) \<and>
         (preBuild (fst entry) = None \<and> envsBuildContext this (envId (snd entry)) = None \<and>
          failedDependencyTask (updateFailedDependencyTask d (fst entry) this) \<noteq> None \<longrightarrow>
            fst (executeTask d i (fst entry) (snd entry) this) = Inr None)"
proof (intro conjI impI)
  assume "preBuild (fst entry) = None"
  then show "preBuildEntry i entry this = (Inr (), this)" by (simp add: preBuildEntry_def)
next
  assume a: "\<forall>entry \<in> set (tasksQueue this). preBuild (fst entry) \<noteq> None \<longrightarrow>
              contexts' (envId (snd entry)) = envsBuildContext this (envId (snd entry))"
  note eq = preBuild_other_contexts [of "tasksQueue this" contexts' "envsBuildContext this" this 0, OF a refl]
  from eq show "fst (executePreBuild (this\<lparr>envsBuildContext := contexts'\<rparr>)) = fst (executePreBuild this)"
    by (simp add: executePreBuild_def)
  from eq show "trace (snd (executePreBuild (this\<lparr>envsBuildContext := contexts'\<rparr>))) =
            trace (snd (executePreBuild this))"
    by (simp add: executePreBuild_def)
next
  assume "preBuild (fst entry) = None \<and> envsBuildContext this (envId (snd entry)) = None \<and>
          failedDependencyTask (updateFailedDependencyTask d (fst entry) this) = None"
  then show "fst (executeTask d i (fst entry) (snd entry) this) =
              Inl (MissingBuildContext (envId (snd entry)))"
    by (simp add: executeTask_missing)
next
  assume "preBuild (fst entry) = None \<and> envsBuildContext this (envId (snd entry)) = None \<and>
          failedDependencyTask (updateFailedDependencyTask d (fst entry) this) \<noteq> None"
  then have "failedDependencyTask (updateFailedDependencyTask d (fst entry) this) \<noteq> None"
    by blast
  from executeTask_skip [OF this, of i "snd entry"]
  show "fst (executeTask d i (fst entry) (snd entry) this) = Inr None" by simp
qed

theorem preBuild_lookup_only_with_hook_witness:
  "preBuildEntry 0 (queueLate ! 0) (BuildPipe_from queueLate contexts1 countDefs) =
     (Inr (), BuildPipe_from queueLate contexts1 countDefs) \<and>
   fst (executePreBuild ((BuildPipe_from queueLate contexts1 countDefs)
          \<lparr>envsBuildContext := contexts1(''env2'' \<mapsto> 3)\<rparr>)) =
     fst (executePreBuild (BuildPipe_from queueLate contexts1 countDefs)) \<and>
   fst (executeTask deserializeId 0 (fst (queueLate ! 0)) (snd (queueLate ! 0))
          (BuildPipe_from queueLate contexts1 countDefs)) = Inl (MissingBuildContext ''env2'') \<and>
   fst (executeTask deserializeId 1 (fst (queueSkip ! 1)) (snd (queueSkip ! 1))
          ((BuildPipe_from queueSkip contexts1 countDefs)
             \<lparr>failedTasks := [mkTask ''A'' None None failing]\<rparr>)) = Inr None"
proof -
  let ?p = "BuildPipe_from queueLate contexts1 countDefs"
  let ?s = "(BuildPipe_from queueSkip contexts1 countDefs)
              \<lparr>failedTasks := [mkTask ''A'' None None failing]\<rparr>"
  have a': "preBuild (fst (queueSkip ! 1)) = None"
    by (simp add: queueSkip_def mkTask_def)
  have c': "envsBuildContext ?s (envId (snd (queueSkip ! 1))) = None"
    by (simp add: example_defs queue_defs)
  have s': "failedDependencyTask
              (updateFailedDependencyTask deserializeId (fst (queueSkip ! 1)) ?s) \<noteq> None"
    by (simp add: updateFailedDependencyTask_def matchesFailedTask_def example_defs queue_defs)
  have skip: "fst (executeTask deserializeId 1 (fst (queueSkip ! 1)) (snd (queueSkip ! 1)) ?s) = Inr None"
    using preBuild_lookup_only_with_hook [of "queueSkip ! 1" 1 ?s contexts1 deserializeId] a' c' s'
    by blast
  have a: "preBuild (fst (queueLate ! 0)) = None"
    by (simp add: queueLate_def mkTask_def)
  have b: "\<forall>entry \<in> set (tasksQueue ?p). preBuild (fst entry) \<noteq> None \<longrightarrow>
             (contexts1(''env2'' \<mapsto> 3)) (envId (snd entry)) = envsBuildContext ?p (envId (snd entry))"
    by (simp add: example_defs queue_defs)
  have c: "envsBuildContext ?p (envId (snd (queueLate ! 0))) = None"
    by (simp add: example_defs queue_defs)
  have n: "failedDependencyTask (updateFailedDependencyTask deserializeId (fst (queueLate ! 0)) ?p) = None"
    by (simp add: updateFailedDependencyTask_def example_defs)
  from preBuild_lookup_only_with_hook [of "queueLate ! 0" 0 ?p "contexts1(''env2'' \<mapsto> 3)" deserializeId]
    a b c n
  have "preBuildEntry 0 (queueLate ! 0) ?p = (Inr (), ?p) \<and>
        fst (executePreBuild (?p\<lparr>envsBuildContext := contexts1(''env2'' \<mapsto> 3)\<rparr>)) =
          fst (executePreBuild ?p) \<and>
        fst (executeTask deserializeId 0 (fst (queueLate ! 0)) (snd (queueLate ! 0)) ?p) =
          Inl (MissingBuildContext ''env2'')"
    by (simp add: queueLate_def env2_def)
  with skip show ?thesis by simp
qed

end
